theory Spec2Isabelle
  imports Complex_Main
begin

section \<open>The three-band equaliser of simple\_eq.py\<close>

text \<open>
  The development embeds \<^verbatim>\<open>apply_eq\<close> of \<^verbatim>\<open>src/simple_eq.py\<close> (lines 145--164)
  together with the library routines it calls: \<^verbatim>\<open>scipy.signal.butter\<close>,
  \<^verbatim>\<open>scipy.signal.filtfilt\<close> (with \<^verbatim>\<open>lfilter\<close>, \<^verbatim>\<open>lfilter_zi\<close> and the odd
  extension it is built from) and \<^verbatim>\<open>numpy.max\<close>.

  A sample is an IEEE-754 double: a finite value, one of the two infinities, or NaN, with
  the arithmetic of the standard on the infinities and NaN. On finite values the
  arithmetic is that of the real numbers: rounding is not modelled, nor is the overflow of
  an operation on finite samples to an infinity, and the two zeros are one. Filter taps
  and gains are finite and are real numbers. A one-dimensional numpy array is a list and
  the sample rate is a Python integer. An exception is a value of the type \<open>exn\<close>.

  What this leaves out: in double precision the taps carry rounding errors, which at very
  high sample rates make the band-pass recurrence unstable or the linear system of
  \<^verbatim>\<open>lfilter_zi\<close> singular, so that a run on finite samples can produce infinities
  and NaN, or raise \<^verbatim>\<open>LinAlgError\<close>, where the exact recurrence does not. The
  statements below that depend on the filtered values are therefore made for sample
  rates of the audio range or under the hypothesis that the samples concerned are finite.
\<close>

subsection \<open>Exceptions\<close>

text \<open>
  \<open>ValueError\<close>, \<open>ZeroDivisionError\<close>, \<open>OverflowError\<close> and \<open>LinAlgError\<close> are the
  exception classes the Python code and its libraries raise. \<open>ConfigurationError\<close>,
  \<open>InsufficientSamplesError\<close> and \<open>NumericOverflowError\<close> are the error kinds the
  specification names; they are part of the type so that statements about them can be
  written, and no definition below constructs them, as no line of the source does.
\<close>

datatype exn =
    ValueError
  | ZeroDivisionError
  | OverflowError
  | LinAlgError
  | ConfigurationError
  | InsufficientSamplesError
  | NumericOverflowError

text \<open>
  Python raises \<^verbatim>\<open>OverflowError\<close> when the result of a float operation on finite
  operands is too large for a double. The largest double is \<open>2^1024 - 2^971\<close>; a result
  of magnitude \<open>2^1024 - 2^970\<close> or more rounds beyond it.
\<close>

definition max_double :: real where
  "max_double = (2 ^ 53 - 1) * 2 ^ 971"

definition overflows :: "real \<Rightarrow> bool" where
  "overflows x = (max_double + 2 ^ 970 \<le> \<bar>x\<bar>)"

subsection \<open>scipy.signal.butter\<close>

text \<open>
  \<^verbatim>\<open>butter(N, Wn, btype)\<close> is \<^verbatim>\<open>iirfilter(N, Wn, btype=btype, ftype='butter',
  output='ba')\<close> for a digital filter: the analog prototype \<^verbatim>\<open>buttap(N)\<close>, the
  pre-warped critical frequencies, the transform to the requested band, the bilinear
  transform and the conversion of zeros, poles and gain to numerator and denominator
  taps. A filter in zero-pole-gain form is a triple.
\<close>

datatype btype = Lowpass | Bandpass | Highpass

text \<open>The argument \<^verbatim>\<open>Wn\<close>: a scalar, or a two-element sequence.\<close>

datatype wn = Scalar real | Pair real real

type_synonym zpk = "complex list \<times> complex list \<times> real"

text \<open>\<^verbatim>\<open>m = arange(-N+1, N, 2); p = -exp(1j * pi * m / (2 * N)); z = []; k = 1\<close>\<close>

definition buttap :: "nat \<Rightarrow> zpk" where
  "buttap N =
     ([], map (\<lambda>j. - cis (pi * (2 * real j + 1 - real N) / (2 * real N))) [0..<N], 1)"

text \<open>
  \<^verbatim>\<open>_relative_degree(z, p)\<close>: the number of poles minus the number of zeros; a
  negative degree raises \<^verbatim>\<open>ValueError\<close> (improper transfer function).
\<close>

definition relative_degree :: "complex list \<Rightarrow> complex list \<Rightarrow> exn + nat" where
  "relative_degree z p =
     (if length p < length z then Inl ValueError else Inr (length p - length z))"

definition lp2lp_zpk :: "zpk \<Rightarrow> real \<Rightarrow> exn + zpk" where
  "lp2lp_zpk f wo =
     (case f of (z, p, k) \<Rightarrow>
        (case relative_degree z p of
           Inl e \<Rightarrow> Inl e
         | Inr degree \<Rightarrow>
             Inr (map (\<lambda>s. of_real wo * s) z, map (\<lambda>s. of_real wo * s) p, k * wo ^ degree)))"

definition lp2hp_zpk :: "zpk \<Rightarrow> real \<Rightarrow> exn + zpk" where
  "lp2hp_zpk f wo =
     (case f of (z, p, k) \<Rightarrow>
        (case relative_degree z p of
           Inl e \<Rightarrow> Inl e
         | Inr degree \<Rightarrow>
             Inr (map (\<lambda>s. of_real wo / s) z @ replicate degree 0,
                  map (\<lambda>s. of_real wo / s) p,
                  k * Re (prod_list (map uminus z) / prod_list (map uminus p)))))"

definition lp2bp_zpk :: "zpk \<Rightarrow> real \<Rightarrow> real \<Rightarrow> exn + zpk" where
  "lp2bp_zpk f wo bw =
     (case f of (z, p, k) \<Rightarrow>
        (case relative_degree z p of
           Inl e \<Rightarrow> Inl e
         | Inr degree \<Rightarrow>
             (let z_lp = map (\<lambda>s. s * of_real bw / 2) z;
                  p_lp = map (\<lambda>s. s * of_real bw / 2) p;
                  z_bp = map (\<lambda>s. s + csqrt (s\<^sup>2 - (of_real wo)\<^sup>2)) z_lp
                       @ map (\<lambda>s. s - csqrt (s\<^sup>2 - (of_real wo)\<^sup>2)) z_lp;
                  p_bp = map (\<lambda>s. s + csqrt (s\<^sup>2 - (of_real wo)\<^sup>2)) p_lp
                       @ map (\<lambda>s. s - csqrt (s\<^sup>2 - (of_real wo)\<^sup>2)) p_lp
              in Inr (z_bp @ replicate degree 0, p_bp, k * bw ^ degree))))"

definition bilinear_zpk :: "zpk \<Rightarrow> real \<Rightarrow> exn + zpk" where
  "bilinear_zpk f fs =
     (case f of (z, p, k) \<Rightarrow>
        (case relative_degree z p of
           Inl e \<Rightarrow> Inl e
         | Inr degree \<Rightarrow>
             (let fs2 = of_real (2 * fs)
              in Inr (map (\<lambda>s. (fs2 + s) / (fs2 - s)) z @ replicate degree (- 1),
                      map (\<lambda>s. (fs2 + s) / (fs2 - s)) p,
                      k * Re (prod_list (map (\<lambda>s. fs2 - s) z)
                              / prod_list (map (\<lambda>s. fs2 - s) p))))))"

text \<open>
  \<^verbatim>\<open>numpy.poly(roots)\<close>: the coefficients, highest power first, of the monic
  polynomial with the given roots, built by convolving with \<^verbatim>\<open>[1, -root]\<close> one root
  at a time.
\<close>

definition convolve_root :: "complex list \<Rightarrow> complex \<Rightarrow> complex list" where
  "convolve_root c r = map2 (+) (c @ [0]) (0 # map (\<lambda>v. - r * v) c)"

definition np_poly :: "complex list \<Rightarrow> complex list" where
  "np_poly roots = foldl convolve_root [1] roots"

text \<open>
  \<^verbatim>\<open>zpk2tf(z, p, k)\<close>: \<^verbatim>\<open>b = k * poly(z)\<close>, \<^verbatim>\<open>a = poly(p)\<close>, returned as real arrays
  (the roots of a Butterworth design come in conjugate pairs).
\<close>

definition zpk2tf :: "zpk \<Rightarrow> real list \<times> real list" where
  "zpk2tf f = (case f of (z, p, k) \<Rightarrow> (map (\<lambda>c. k * Re c) (np_poly z), map Re (np_poly p)))"

text \<open>The pre-warping of a digital critical frequency, with \<^verbatim>\<open>fs = 2.0\<close>.\<close>

definition warp :: "real \<Rightarrow> real" where
  "warp w = 2 * 2 * tan (pi * w / 2)"

text \<open>
  The checks of \<^verbatim>\<open>iirfilter\<close> in their order: a two-element \<^verbatim>\<open>Wn\<close> must be
  increasing; every digital critical frequency must lie strictly between 0 and 1; a
  low-pass or high-pass filter takes one frequency and a band-pass filter two. Each
  failure is a \<^verbatim>\<open>ValueError\<close>.
\<close>

definition butter :: "nat \<Rightarrow> wn \<Rightarrow> btype \<Rightarrow> exn + (real list \<times> real list)" where
  "butter N Wn bt =
     (if (case Wn of Pair w0 w1 \<Rightarrow> \<not> w0 < w1 | Scalar w \<Rightarrow> False) then Inl ValueError
      else if (case Wn of Pair w0 w1 \<Rightarrow> w0 \<le> 0 \<or> w1 \<le> 0 \<or> w0 \<ge> 1 \<or> w1 \<ge> 1
                        | Scalar w \<Rightarrow> w \<le> 0 \<or> w \<ge> 1) then Inl ValueError
      else
        (case (case (bt, Wn) of
                 (Lowpass, Scalar w) \<Rightarrow> lp2lp_zpk (buttap N) (warp w)
               | (Highpass, Scalar w) \<Rightarrow> lp2hp_zpk (buttap N) (warp w)
               | (Bandpass, Pair w0 w1) \<Rightarrow>
                   lp2bp_zpk (buttap N) (sqrt (warp w0 * warp w1)) (warp w1 - warp w0)
               | _ \<Rightarrow> Inl ValueError) of
           Inl e \<Rightarrow> Inl e
         | Inr analog \<Rightarrow>
             (case bilinear_zpk analog 2 of
                Inl e \<Rightarrow> Inl e
              | Inr digital \<Rightarrow> Inr (zpk2tf digital))))"

subsection \<open>Samples\<close>

datatype dbl = Fin real | PInf | NInf | NaN

instantiation dbl :: "{zero, plus, uminus, minus, times, inverse, abs}"
begin

definition zero_dbl :: dbl where
  "zero_dbl = Fin 0"

fun plus_dbl :: "dbl \<Rightarrow> dbl \<Rightarrow> dbl" where
  "plus_dbl NaN y = NaN"
| "plus_dbl x NaN = NaN"
| "plus_dbl PInf NInf = NaN"
| "plus_dbl NInf PInf = NaN"
| "plus_dbl PInf y = PInf"
| "plus_dbl x PInf = PInf"
| "plus_dbl NInf y = NInf"
| "plus_dbl x NInf = NInf"
| "plus_dbl (Fin x) (Fin y) = Fin (x + y)"

fun uminus_dbl :: "dbl \<Rightarrow> dbl" where
  "uminus_dbl (Fin x) = Fin (- x)"
| "uminus_dbl PInf = NInf"
| "uminus_dbl NInf = PInf"
| "uminus_dbl NaN = NaN"

definition minus_dbl :: "dbl \<Rightarrow> dbl \<Rightarrow> dbl" where
  "minus_dbl x y = x + (- y)"

fun times_dbl :: "dbl \<Rightarrow> dbl \<Rightarrow> dbl" where
  "times_dbl NaN y = NaN"
| "times_dbl x NaN = NaN"
| "times_dbl (Fin x) (Fin y) = Fin (x * y)"
| "times_dbl PInf (Fin y) = (if y = 0 then NaN else if 0 < y then PInf else NInf)"
| "times_dbl NInf (Fin y) = (if y = 0 then NaN else if 0 < y then NInf else PInf)"
| "times_dbl (Fin x) PInf = (if x = 0 then NaN else if 0 < x then PInf else NInf)"
| "times_dbl (Fin x) NInf = (if x = 0 then NaN else if 0 < x then NInf else PInf)"
| "times_dbl PInf PInf = PInf"
| "times_dbl NInf NInf = PInf"
| "times_dbl PInf NInf = NInf"
| "times_dbl NInf PInf = NInf"

text \<open>Division by a finite zero is given for the positive zero.\<close>

fun divide_dbl :: "dbl \<Rightarrow> dbl \<Rightarrow> dbl" where
  "divide_dbl NaN y = NaN"
| "divide_dbl x NaN = NaN"
| "divide_dbl (Fin x) (Fin y) =
     (if y = 0 then (if x = 0 then NaN else if 0 < x then PInf else NInf) else Fin (x / y))"
| "divide_dbl (Fin x) PInf = Fin 0"
| "divide_dbl (Fin x) NInf = Fin 0"
| "divide_dbl PInf (Fin y) = (if 0 \<le> y then PInf else NInf)"
| "divide_dbl NInf (Fin y) = (if 0 \<le> y then NInf else PInf)"
| "divide_dbl PInf PInf = NaN"
| "divide_dbl PInf NInf = NaN"
| "divide_dbl NInf PInf = NaN"
| "divide_dbl NInf NInf = NaN"

fun inverse_dbl :: "dbl \<Rightarrow> dbl" where
  "inverse_dbl (Fin x) = (if x = 0 then PInf else Fin (1 / x))"
| "inverse_dbl PInf = Fin 0"
| "inverse_dbl NInf = Fin 0"
| "inverse_dbl NaN = NaN"

fun abs_dbl :: "dbl \<Rightarrow> dbl" where
  "abs_dbl (Fin x) = Fin \<bar>x\<bar>"
| "abs_dbl PInf = PInf"
| "abs_dbl NInf = PInf"
| "abs_dbl NaN = NaN"

instance ..

end

text \<open>The comparison \<^verbatim>\<open>x > y\<close> of two doubles: False when either is NaN.\<close>

fun greater :: "dbl \<Rightarrow> dbl \<Rightarrow> bool" where
  "greater NaN y = False"
| "greater x NaN = False"
| "greater (Fin x) (Fin y) = (y < x)"
| "greater PInf PInf = False"
| "greater PInf y = True"
| "greater NInf y = False"
| "greater (Fin x) PInf = False"
| "greater (Fin x) NInf = True"

text \<open>\<^verbatim>\<open>numpy.maximum\<close>: the larger of two doubles, NaN when either is NaN.\<close>

fun maximum :: "dbl \<Rightarrow> dbl \<Rightarrow> dbl" where
  "maximum NaN y = NaN"
| "maximum x NaN = NaN"
| "maximum PInf y = PInf"
| "maximum x PInf = PInf"
| "maximum NInf y = y"
| "maximum x NInf = x"
| "maximum (Fin x) (Fin y) = Fin (max x y)"

text \<open>The value of a finite sample.\<close>

fun fin_value :: "dbl \<Rightarrow> real" where
  "fin_value (Fin x) = x"
| "fin_value PInf = 0"
| "fin_value NInf = 0"
| "fin_value NaN = 0"

fun is_fin :: "dbl \<Rightarrow> bool" where
  "is_fin (Fin x) = True"
| "is_fin PInf = False"
| "is_fin NInf = False"
| "is_fin NaN = False"

subsection \<open>scipy.signal.lfilter and lfilter\_zi\<close>

definition pad_to :: "nat \<Rightarrow> real list \<Rightarrow> real list" where
  "pad_to n xs = xs @ replicate (n - length xs) 0"

text \<open>
  One sample of the transposed direct form II recurrence, for taps \<open>b\<close> and \<open>a\<close>
  normalised by \<open>a[0]\<close> and padded to a common length \<open>n\<close>, and a delay line \<open>z\<close> of
  length \<open>n - 1\<close>:
  \<^verbatim>\<open>y = z[0] + b[0]*x;  z[i] = z[i+1] + x*b[i+1] - y*a[i+1];  z[n-2] = x*b[n-1] - y*a[n-1]\<close>
  and \<^verbatim>\<open>y = x*b[0]\<close> when there is no delay line.
\<close>

definition lfilter_step :: "real list \<Rightarrow> real list \<Rightarrow> dbl list \<Rightarrow> dbl \<Rightarrow> dbl \<times> dbl list" where
  "lfilter_step b a z x =
     (let y = (case z of [] \<Rightarrow> x * Fin (b ! 0) | z0 # zs \<Rightarrow> z0 + Fin (b ! 0) * x)
      in (y, map (\<lambda>i. if i + 1 < length z
                       then z ! (i + 1) + x * Fin (b ! (i + 1)) - y * Fin (a ! (i + 1))
                       else x * Fin (b ! (i + 1)) - y * Fin (a ! (i + 1))) [0..<length z]))"

fun lfilter_run :: "real list \<Rightarrow> real list \<Rightarrow> dbl list \<Rightarrow> dbl list \<Rightarrow> dbl list" where
  "lfilter_run b a z [] = []"
| "lfilter_run b a z (x # xs) =
     (case lfilter_step b a z x of (y, z') \<Rightarrow> y # lfilter_run b a z' xs)"

text \<open>
  \<^verbatim>\<open>lfilter(b, a, x, zi=zi)\<close>, the filtered signal (the final delay line, which
  \<^verbatim>\<open>filtfilt\<close> discards, is not returned). A zero \<open>a[0]\<close> and an initial state of the
  wrong length raise \<^verbatim>\<open>ValueError\<close>. Empty tap vectors, which \<^verbatim>\<open>butter\<close> never
  returns, are rejected in the same way.
\<close>

definition lfilter :: "real list \<Rightarrow> real list \<Rightarrow> dbl list \<Rightarrow> dbl list \<Rightarrow> exn + dbl list" where
  "lfilter b a x zi =
     (if a = [] \<or> b = [] then Inl ValueError
      else if a ! 0 = 0 then Inl ValueError
      else
        (let n = max (length a) (length b);
             bn = pad_to n (map (\<lambda>c. c / a ! 0) b);
             an = pad_to n (map (\<lambda>c. c / a ! 0) a)
         in if length zi \<noteq> n - 1 then Inl ValueError
            else Inr (lfilter_run bn an zi x)))"

text \<open>\<^verbatim>\<open>while len(a) > 1 and a[0] == 0.0: a = a[1:]\<close>\<close>

fun strip_zeros :: "real list \<Rightarrow> real list" where
  "strip_zeros (x # y # ys) = (if x = 0 then strip_zeros (y # ys) else x # y # ys)"
| "strip_zeros xs = xs"

text \<open>
  \<^verbatim>\<open>lfilter_zi(b, a)\<close>: the delay line of the step response's steady state, the
  solution \<open>zi\<close> of \<open>zi = A zi + B\<close> with \<open>A\<close> the transposed companion matrix of the
  normalised \<open>a\<close> and \<open>B = b[1:] - a[1:] * b[0]\<close>. The determinant of \<open>I - A\<close> is the sum
  of the normalised \<open>a\<close>; when it is zero \<^verbatim>\<open>numpy.linalg.solve\<close> raises
  \<^verbatim>\<open>LinAlgError\<close>, and otherwise the solution is the one the comment in scipy's source
  gives: \<open>zi[0] = sum(B) / sum(a)\<close> and \<open>zi[k] = (a[0] + ... + a[k]) * zi[0] - (B[1] + ... + B[k])\<close>.
  Fewer than two taps raise \<^verbatim>\<open>ValueError\<close> (no companion matrix). A vector \<open>a\<close> of
  zeros only, where scipy divides by zero, is rejected here with \<^verbatim>\<open>ValueError\<close>;
  \<^verbatim>\<open>butter\<close> returns no such vector.
\<close>

definition lfilter_zi :: "real list \<Rightarrow> real list \<Rightarrow> exn + real list" where
  "lfilter_zi b a0 =
     (let a = strip_zeros a0
      in if a = [] \<or> a ! 0 = 0 then Inl ValueError
         else
           (let n = max (length a) (length b);
                an = pad_to n (map (\<lambda>c. c / a ! 0) a);
                bn = pad_to n (map (\<lambda>c. c / a ! 0) b);
                B = map (\<lambda>k. bn ! k - an ! k * bn ! 0) [1..<n]
            in if n < 2 then Inl ValueError
               else if sum_list an = 0 then Inl LinAlgError
               else Inr (map (\<lambda>k. sum_list (take (k + 1) an) * (sum_list B / sum_list an)
                                    - sum_list (take k B)) [0..<n - 1])))"

subsection \<open>scipy.signal.filtfilt\<close>

text \<open>
  \<^verbatim>\<open>odd_ext(x, n)\<close>: \<open>x\<close> extended by \<open>n\<close> samples at each end, each the point
  reflection of the signal about its end sample:
  \<^verbatim>\<open>concatenate((2*x[0] - x[n:0:-1], x, 2*x[-1] - x[-2:-(n+2):-1]))\<close>.
\<close>

definition odd_ext :: "dbl list \<Rightarrow> nat \<Rightarrow> exn + dbl list" where
  "odd_ext x n =
     (if n < 1 then Inr x
      else if n > length x - 1 \<or> x = [] then Inl ValueError
      else Inr (map (\<lambda>v. Fin 2 * hd x - v) (rev (take n (tl x)))
                @ x
                @ map (\<lambda>v. Fin 2 * last x - v) (take n (tl (rev x)))))"

text \<open>
  \<^verbatim>\<open>filtfilt(b, a, x)\<close> with its defaults (\<^verbatim>\<open>padtype='odd'\<close>, \<^verbatim>\<open>padlen=None\<close>,
  \<^verbatim>\<open>method='pad'\<close>): the pad length is \<open>3 * max(len(a), len(b))\<close> and the signal must be
  strictly longer, else \<^verbatim>\<open>ValueError\<close>; the extended signal is filtered forward from
  the state \<open>zi * ext[0]\<close>, the result is reversed and filtered from \<open>zi * y[-1]\<close>,
  reversed again, and the padding is cut off: \<^verbatim>\<open>y[edge:-edge]\<close>.
\<close>

definition filtfilt :: "real list \<Rightarrow> real list \<Rightarrow> dbl list \<Rightarrow> exn + dbl list" where
  "filtfilt b a x =
     (let edge = 3 * max (length a) (length b)
      in if length x \<le> edge then Inl ValueError
         else
           (case odd_ext x edge of
              Inl e \<Rightarrow> Inl e
            | Inr ext \<Rightarrow>
                (case lfilter_zi b a of
                   Inl e \<Rightarrow> Inl e
                 | Inr zi \<Rightarrow>
                     (case lfilter b a ext (map (\<lambda>c. Fin c * hd ext) zi) of
                        Inl e \<Rightarrow> Inl e
                      | Inr y \<Rightarrow>
                          (case lfilter b a (rev y) (map (\<lambda>c. Fin c * last y) zi) of
                             Inl e \<Rightarrow> Inl e
                           | Inr y' \<Rightarrow>
                               (if edge > 0
                                then Inr (drop edge (take (length y' - edge) (rev y')))
                                else Inr (rev y')))))))"

subsection \<open>numpy.max\<close>

text \<open>
  The maximum of a non-empty array, NaN when the array holds a NaN; an empty array raises
  \<^verbatim>\<open>ValueError\<close>.
\<close>

definition np_max :: "dbl list \<Rightarrow> exn + dbl" where
  "np_max xs = (case xs of [] \<Rightarrow> Inl ValueError | x # xs' \<Rightarrow> Inr (fold maximum xs' x))"

subsection \<open>apply\_eq\<close>

text \<open>
  Lines 146--151: \<^verbatim>\<open>nyquist = sr / 2\<close> and the three filter designs. The division
  of the integer \<open>sr\<close> raises \<^verbatim>\<open>OverflowError\<close> when the quotient is too large for a
  double, and the divisions by \<open>nyquist\<close> raise \<^verbatim>\<open>ZeroDivisionError\<close> when it is zero.
  The low-pass cutoff and the upper band edge are clamped with \<^verbatim>\<open>min(..., nyquist-1)\<close>;
  the high-pass cutoff is \<^verbatim>\<open>max(4000, 1) / nyquist\<close>.
\<close>

definition design_filters ::
  "int \<Rightarrow> exn + ((real list \<times> real list) \<times> (real list \<times> real list) \<times> (real list \<times> real list))"
where
  "design_filters sr =
     (if overflows (real_of_int sr / 2) then Inl OverflowError
      else
        (let nyquist = real_of_int sr / 2
         in if nyquist = 0 then Inl ZeroDivisionError
            else
              (case butter 4 (Scalar (min 250 (nyquist - 1) / nyquist)) Lowpass of
                 Inl e \<Rightarrow> Inl e
               | Inr low \<Rightarrow>
                   (case butter 4 (Pair (max 250 1 / nyquist) (min 4000 (nyquist - 1) / nyquist))
                           Bandpass of
                      Inl e \<Rightarrow> Inl e
                    | Inr mid \<Rightarrow>
                        (case butter 4 (Scalar (max 4000 1 / nyquist)) Highpass of
                           Inl e \<Rightarrow> Inl e
                         | Inr high \<Rightarrow> Inr (low, mid, high))))))"

text \<open>
  The gain of a band: \<^verbatim>\<open>band * (10 ** (gain / 20))\<close>, a new array. The power raises
  \<^verbatim>\<open>OverflowError\<close> when it is too large for a double (a gain beyond about 6165 dB).
\<close>

definition db_to_linear :: "real \<Rightarrow> real" where
  "db_to_linear gain = 10 powr (gain / 20)"

definition gain_factor :: "real \<Rightarrow> exn + real" where
  "gain_factor gain =
     (if overflows (db_to_linear gain) then Inl OverflowError else Inr (db_to_linear gain))"

definition scale_band :: "dbl list \<Rightarrow> real \<Rightarrow> dbl list" where
  "scale_band band gain = map (\<lambda>v. v * Fin (db_to_linear gain)) band"

text \<open>The elementwise sum of two arrays of one shape.\<close>

definition add_bands :: "dbl list \<Rightarrow> dbl list \<Rightarrow> dbl list" where
  "add_bands xs ys = map2 (+) xs ys"

text \<open>
  Lines 146--159: the buffer \<^verbatim>\<open>processed\<close> before normalisation,
  \<^verbatim>\<open>low_band + mid_band + high_band\<close>. The calls are made in the source's order, each
  band filtered and then its gain factor computed, so the first failing call decides the
  exception. A gain factor that exists is \<open>db_to_linear\<close> of the gain, the multiplier
  \<open>scale_band\<close> applies.
\<close>

definition mix_bands :: "dbl list \<Rightarrow> int \<Rightarrow> real \<Rightarrow> real \<Rightarrow> real \<Rightarrow> exn + dbl list" where
  "mix_bands audio sr low_gain mid_gain high_gain =
     (case design_filters sr of
        Inl e \<Rightarrow> Inl e
      | Inr ((b_low, a_low), (b_mid, a_mid), (b_high, a_high)) \<Rightarrow>
     (case filtfilt b_low a_low audio of
        Inl e \<Rightarrow> Inl e
      | Inr low \<Rightarrow>
     (case gain_factor low_gain of
        Inl e \<Rightarrow> Inl e
      | Inr low_factor \<Rightarrow>
     (case filtfilt b_mid a_mid audio of
        Inl e \<Rightarrow> Inl e
      | Inr mid \<Rightarrow>
     (case gain_factor mid_gain of
        Inl e \<Rightarrow> Inl e
      | Inr mid_factor \<Rightarrow>
     (case filtfilt b_high a_high audio of
        Inl e \<Rightarrow> Inl e
      | Inr high \<Rightarrow>
     (case gain_factor high_gain of
        Inl e \<Rightarrow> Inl e
      | Inr high_factor \<Rightarrow>
          Inr (add_bands
                 (add_bands (scale_band low low_gain) (scale_band mid mid_gain))
                 (scale_band high high_gain)))))))))"

text \<open>
  Lines 160--164: \<^verbatim>\<open>max_val = np.max(np.abs(processed))\<close>; when
  \<^verbatim>\<open>max_val > 1.0\<close> the buffer is divided by it.
\<close>

definition normalize_peak :: "dbl list \<Rightarrow> exn + dbl list" where
  "normalize_peak processed =
     (case np_max (map abs processed) of
        Inl e \<Rightarrow> Inl e
      | Inr max_val \<Rightarrow>
          (if greater max_val (Fin 1) then Inr (map (\<lambda>v. v / max_val) processed)
           else Inr processed))"

definition apply_eq :: "dbl list \<Rightarrow> int \<Rightarrow> real \<Rightarrow> real \<Rightarrow> real \<Rightarrow> exn + dbl list" where
  "apply_eq audio sr low_gain mid_gain high_gain =
     (case mix_bands audio sr low_gain mid_gain high_gain of
        Inl e \<Rightarrow> Inl e
      | Inr processed \<Rightarrow> normalize_peak processed)"

subsection \<open>apply\_eq on a store of arrays\<close>

text \<open>
  To speak about the caller's buffer, arrays live in a store and are passed by reference, as
  numpy arrays are. The store is the list of all arrays allocated so far and a reference is
  an index into it. An operation that returns a new array appends it to the store and
  yields its reference; an operation that wrote into an existing array would replace the
  array at its reference. Every array operation \<open>apply_eq\<close> uses is of the first kind:
  \<^verbatim>\<open>filtfilt\<close>, the products with the gains, the two sums, \<^verbatim>\<open>np.abs\<close> and the
  quotient \<^verbatim>\<open>processed / max_val\<close>, whose result is bound to the local name
  \<^verbatim>\<open>processed\<close> (the statement is not the in-place \<^verbatim>\<open>processed /= max_val\<close>).
\<close>

type_synonym store = "dbl list list"

definition np_new :: "dbl list \<Rightarrow> store \<Rightarrow> nat \<times> store" where
  "np_new v h = (length h, h @ [v])"

text \<open>\<^verbatim>\<open>signal.filtfilt(b, a, x)\<close> reads \<open>x\<close> and returns a new array.\<close>

definition filtfilt_ref :: "real list \<Rightarrow> real list \<Rightarrow> nat \<Rightarrow> store \<Rightarrow> (exn + nat) \<times> store" where
  "filtfilt_ref b a x h =
     (case filtfilt b a (h ! x) of
        Inl e \<Rightarrow> (Inl e, h)
      | Inr y \<Rightarrow> (case np_new y h of (r, h') \<Rightarrow> (Inr r, h')))"

text \<open>\<^verbatim>\<open>band * k\<close>, \<^verbatim>\<open>xs + ys\<close>, \<^verbatim>\<open>np.abs(xs)\<close> and \<^verbatim>\<open>xs / k\<close>: new arrays.\<close>

definition scale_ref :: "nat \<Rightarrow> real \<Rightarrow> store \<Rightarrow> nat \<times> store" where
  "scale_ref band gain h = np_new (scale_band (h ! band) gain) h"

definition add_ref :: "nat \<Rightarrow> nat \<Rightarrow> store \<Rightarrow> nat \<times> store" where
  "add_ref xs ys h = np_new (add_bands (h ! xs) (h ! ys)) h"

definition abs_ref :: "nat \<Rightarrow> store \<Rightarrow> nat \<times> store" where
  "abs_ref xs h = np_new (map abs (h ! xs)) h"

definition divide_ref :: "nat \<Rightarrow> dbl \<Rightarrow> store \<Rightarrow> nat \<times> store" where
  "divide_ref xs k h = np_new (map (\<lambda>v. v / k) (h ! xs)) h"

text \<open>
  \<open>apply_eq\<close> statement by statement, with \<open>audio\<close> the reference the caller passes. The
  result is the exception raised or the reference returned, and the store at that moment.
\<close>

definition apply_eq_store ::
  "nat \<Rightarrow> int \<Rightarrow> real \<Rightarrow> real \<Rightarrow> real \<Rightarrow> store \<Rightarrow> (exn + nat) \<times> store"
where
  "apply_eq_store audio sr low_gain mid_gain high_gain h0 =
     (case design_filters sr of
        Inl e \<Rightarrow> (Inl e, h0)
      | Inr ((b_low, a_low), (b_mid, a_mid), (b_high, a_high)) \<Rightarrow>
     (case filtfilt_ref b_low a_low audio h0 of
        (Inl e, h1) \<Rightarrow> (Inl e, h1)
      | (Inr low_filtered, h1) \<Rightarrow>
     (case gain_factor low_gain of
        Inl e \<Rightarrow> (Inl e, h1)
      | Inr low_factor \<Rightarrow>
     (case scale_ref low_filtered low_gain h1 of (low_band, h2) \<Rightarrow>
     (case filtfilt_ref b_mid a_mid audio h2 of
        (Inl e, h3) \<Rightarrow> (Inl e, h3)
      | (Inr mid_filtered, h3) \<Rightarrow>
     (case gain_factor mid_gain of
        Inl e \<Rightarrow> (Inl e, h3)
      | Inr mid_factor \<Rightarrow>
     (case scale_ref mid_filtered mid_gain h3 of (mid_band, h4) \<Rightarrow>
     (case filtfilt_ref b_high a_high audio h4 of
        (Inl e, h5) \<Rightarrow> (Inl e, h5)
      | (Inr high_filtered, h5) \<Rightarrow>
     (case gain_factor high_gain of
        Inl e \<Rightarrow> (Inl e, h5)
      | Inr high_factor \<Rightarrow>
     (case scale_ref high_filtered high_gain h5 of (high_band, h6) \<Rightarrow>
     (case add_ref low_band mid_band h6 of (low_mid, h7) \<Rightarrow>
     (case add_ref low_mid high_band h7 of (processed, h8) \<Rightarrow>
     (case abs_ref processed h8 of (magnitudes, h9) \<Rightarrow>
     (case np_max (h9 ! magnitudes) of
        Inl e \<Rightarrow> (Inl e, h9)
      | Inr max_val \<Rightarrow>
          (if greater max_val (Fin 1)
           then (case divide_ref processed max_val h9 of (processed', h10) \<Rightarrow>
                   (Inr processed', h10))
           else (Inr processed, h9))))))))))))))))"

section \<open>Properties\<close>

subsection \<open>Arithmetic on samples\<close>

lemma Fin_minus [simp]: "Fin x - Fin y = Fin (x - y)"
  by (simp add: minus_dbl_def)

lemma NaN_plus [simp]: "x + NaN = NaN"
  by (cases x) simp_all

lemma NaN_times [simp]: "x * NaN = NaN"
  by (cases x) simp_all

lemma NaN_minus [simp]: "NaN - x = NaN" "x - NaN = NaN"
  by (simp_all add: minus_dbl_def)

lemma NaN_divide [simp]: "x / NaN = NaN"
  by (cases x) simp_all

lemma times_Fin_1 [simp]: "v * Fin 1 = v"
  by (cases v) simp_all

lemma is_fin_conv: "is_fin v \<longleftrightarrow> v = Fin (fin_value v)"
  by (cases v) simp_all

lemma all_fin_conv: "(\<forall>v\<in>set xs. is_fin v) \<longleftrightarrow> xs = map Fin (map fin_value xs)"
proof (induction xs)
  case Nil
  show ?case by simp
next
  case (Cons x xs)
  then show ?case by (cases x) simp_all
qed

lemma not_fin_cases: "\<not> is_fin v \<longleftrightarrow> v = NaN \<or> v = PInf \<or> v = NInf"
  by (cases v) simp_all

subsection \<open>Peak normalisation and gains\<close>

lemma np_max_Nil: "np_max [] = Inl ValueError"
  by (simp add: np_max_def)

lemma np_max_error: "np_max xs = Inl e \<longleftrightarrow> xs = [] \<and> e = ValueError"
  by (cases xs) (auto simp: np_max_def)

lemma fold_maximum_Fin: "fold maximum (map Fin xs) (Fin x) = Fin (fold max xs x)"
  by (induction xs arbitrary: x) simp_all

lemma np_max_Fin:
  assumes "rs \<noteq> []"
  shows "np_max (map Fin rs) = Inr (Fin (Max (set rs)))"
proof -
  from assms obtain x xs where rs: "rs = x # xs" by (cases rs) auto
  have "fold max xs x = Max (set (x # xs))"
    by (simp only: Max.set_eq_fold)
  then show ?thesis
    by (simp add: np_max_def rs fold_maximum_Fin)
qed

lemma maximum_NaN [simp]: "maximum x NaN = NaN"
  by (cases x) simp_all

lemma fold_maximum_NaN [simp]: "fold maximum xs NaN = NaN"
  by (induction xs) simp_all

lemma fold_maximum_has_NaN: "NaN \<in> set xs \<Longrightarrow> fold maximum xs x = NaN"
  by (induction xs arbitrary: x) auto

lemma np_max_NaN:
  assumes "NaN \<in> set xs"
  shows "np_max xs = Inr NaN"
proof -
  from assms obtain x xs' where xs: "xs = x # xs'" by (cases xs) auto
  show ?thesis
  proof (cases "x = NaN")
    case True
    then show ?thesis by (simp add: np_max_def xs)
  next
    case False
    with assms xs have "NaN \<in> set xs'" by simp
    then show ?thesis by (simp add: np_max_def xs fold_maximum_has_NaN)
  qed
qed

lemma maximum_PInf [simp]: "x \<noteq> NaN \<Longrightarrow> maximum x PInf = PInf"
  by (cases x) simp_all

lemma fold_maximum_PInf: "NaN \<notin> set xs \<Longrightarrow> fold maximum xs PInf = PInf"
  by (induction xs) auto

lemma fold_maximum_has_PInf:
  "NaN \<notin> set xs \<Longrightarrow> x \<noteq> NaN \<Longrightarrow> PInf \<in> set xs \<Longrightarrow> fold maximum xs x = PInf"
proof (induction xs arbitrary: x)
  case Nil
  then show ?case by simp
next
  case (Cons y ys)
  show ?case
  proof (cases "y = PInf")
    case True
    with Cons.prems show ?thesis
      by (cases x) (simp_all add: fold_maximum_PInf)
  next
    case False
    with Cons.prems have "PInf \<in> set ys" "NaN \<notin> set ys" "y \<noteq> NaN" by auto
    moreover from \<open>y \<noteq> NaN\<close> Cons.prems(2) have "maximum y x \<noteq> NaN"
      by (cases y; cases x) simp_all
    ultimately show ?thesis using Cons.IH[of "maximum y x"] by simp
  qed
qed

lemma np_max_PInf:
  assumes "NaN \<notin> set xs" "PInf \<in> set xs"
  shows "np_max xs = Inr PInf"
proof -
  from assms obtain x xs' where xs: "xs = x # xs'" by (cases xs) auto
  show ?thesis
  proof (cases "x = PInf")
    case True
    with assms xs show ?thesis by (simp add: np_max_def fold_maximum_PInf)
  next
    case False
    with assms xs have "NaN \<notin> set xs'" "x \<noteq> NaN" "PInf \<in> set xs'" by auto
    then have "fold maximum xs' x = PInf" by (rule fold_maximum_has_PInf)
    then show ?thesis by (simp add: np_max_def xs)
  qed
qed

text \<open>
  The normalisation step, case by case: a NaN in the buffer makes the peak NaN, the
  comparison False and the result the buffer itself; else an infinity makes the peak
  infinite; else the peak is the largest absolute value.
\<close>

lemma normalize_peak_NaN:
  assumes "NaN \<in> set mixed"
  shows "normalize_peak mixed = Inr mixed"
proof -
  from assms have "\<bar>NaN\<bar> \<in> abs ` set mixed" by (rule imageI)
  then have "NaN \<in> set (map abs mixed)" by simp
  then have "np_max (map abs mixed) = Inr NaN" by (rule np_max_NaN)
  then show ?thesis by (simp add: normalize_peak_def)
qed

lemma abs_eq_NaN [simp]: "\<bar>v\<bar> = NaN \<longleftrightarrow> v = (NaN :: dbl)"
  by (cases v) simp_all

lemma NaN_eq_abs [simp]: "NaN = \<bar>v\<bar> \<longleftrightarrow> v = (NaN :: dbl)"
  by (cases v) simp_all

lemma PInf_eq_abs [simp]: "PInf = \<bar>v\<bar> \<longleftrightarrow> v = PInf \<or> v = NInf"
  by (cases v) simp_all

lemma abs_eq_PInf [simp]: "\<bar>v\<bar> = PInf \<longleftrightarrow> v = PInf \<or> v = NInf"
  by (cases v) simp_all

lemma normalize_peak_infinite:
  assumes "NaN \<notin> set mixed" "PInf \<in> set mixed \<or> NInf \<in> set mixed"
  shows "normalize_peak mixed = Inr (map (\<lambda>v. v / PInf) mixed)"
proof -
  have "NaN \<notin> set (map abs mixed)"
  proof
    assume "NaN \<in> set (map abs mixed)"
    with assms(1) show False by auto
  qed
  moreover have "PInf \<in> set (map abs mixed)"
  proof -
    from assms(2) obtain v where "v \<in> set mixed" "\<bar>v\<bar> = PInf" by auto
    then show ?thesis by (metis image_eqI list.set_map)
  qed
  ultimately have "np_max (map abs mixed) = Inr PInf" by (rule np_max_PInf)
  then show ?thesis by (simp add: normalize_peak_def)
qed

lemma normalize_peak_finite:
  assumes "rs \<noteq> []"
  shows "normalize_peak (map Fin rs)
           = Inr (if 1 < Max (abs ` set rs)
                  then map (\<lambda>r. Fin (r / Max (abs ` set rs))) rs else map Fin rs)"
proof -
  have "map abs (map Fin rs) = map Fin (map abs rs)" by simp
  moreover have "np_max (map Fin (map abs rs)) = Inr (Fin (Max (abs ` set rs)))"
    using assms np_max_Fin[of "map abs rs"] by simp
  moreover have "1 < m \<Longrightarrow> Fin r / Fin m = Fin (r / m)" for r m
    by simp
  ultimately show ?thesis
    by (simp add: normalize_peak_def comp_def)
qed

lemma normalize_peak_Nil: "normalize_peak [] = Inl ValueError"
  by (simp add: normalize_peak_def np_max_def)

lemma normalize_peak_length: "normalize_peak p = Inr out \<Longrightarrow> length out = length p"
  by (auto simp: normalize_peak_def split: sum.splits if_splits)

lemma normalize_peak_ok: "p \<noteq> [] \<Longrightarrow> \<exists>out. normalize_peak p = Inr out"
  by (cases p) (auto simp: normalize_peak_def np_max_def)

lemma normalize_peak_error: "normalize_peak p = Inl e \<Longrightarrow> p = [] \<and> e = ValueError"
  by (auto simp: normalize_peak_def np_max_error split: sum.splits if_splits)

lemma normalize_peak_bound:
  assumes "normalize_peak (map Fin rs) = Inr out" and "v \<in> set out"
  shows "\<exists>r. v = Fin r \<and> \<bar>r\<bar> \<le> 1"
proof -
  from assms(1) have ne: "rs \<noteq> []"
    by (auto simp: normalize_peak_Nil)
  define M where "M = Max (abs ` set rs)"
  have le: "\<bar>u\<bar> \<le> M" if "u \<in> set rs" for u
    unfolding M_def using that by (intro Max_ge) auto
  from assms(1) ne
  have out: "out = (if 1 < M then map (\<lambda>r. Fin (r / M)) rs else map Fin rs)"
    by (auto simp: normalize_peak_finite M_def)
  show ?thesis
  proof (cases "1 < M")
    case True
    with out assms(2) obtain u where u: "u \<in> set rs" "v = Fin (u / M)" by auto
    with le[of u] True have "\<bar>u / M\<bar> \<le> 1" by (simp add: abs_divide)
    with u show ?thesis by blast
  next
    case False
    with out assms(2) obtain u where u: "u \<in> set rs" "v = Fin u" by auto
    with le[of u] False show ?thesis by auto
  qed
qed

lemma db_to_linear_0: "db_to_linear 0 = 1"
  by (simp add: db_to_linear_def)

lemma db_to_linear_pos: "db_to_linear g > 0"
  by (simp add: db_to_linear_def)

subsection \<open>The recursive filter\<close>

lemma length_pad_to: "length (pad_to n xs) = max n (length xs)"
  by (simp add: pad_to_def)

lemma lfilter_step_length: "length (snd (lfilter_step b a z x)) = length z"
  by (simp add: lfilter_step_def Let_def)

lemma lfilter_run_length: "length (lfilter_run b a z xs) = length xs"
  by (induction xs arbitrary: z) (auto split: prod.splits)

lemma lfilter_length: "lfilter b a x zi = Inr y \<Longrightarrow> length y = length x"
  by (auto simp: lfilter_def Let_def lfilter_run_length split: if_splits)

lemma lfilter_error: "lfilter b a x zi = Inl e \<Longrightarrow> e = ValueError"
  by (auto simp: lfilter_def Let_def split: if_splits)

lemma lfilter_ok:
  assumes "a \<noteq> []" "b \<noteq> []" "a ! 0 \<noteq> 0" "length zi = max (length a) (length b) - 1"
  shows "\<exists>y. lfilter b a x zi = Inr y"
  using assms by (simp add: lfilter_def Let_def)

lemma strip_zeros_nonzero: "a \<noteq> [] \<Longrightarrow> a ! 0 \<noteq> 0 \<Longrightarrow> strip_zeros a = a"
  by (cases a rule: strip_zeros.cases) simp_all

lemma lfilter_zi_error: "lfilter_zi b a = Inl e \<Longrightarrow> e = ValueError \<or> e = LinAlgError"
  by (auto simp: lfilter_zi_def Let_def split: if_splits)

lemma lfilter_zi_length:
  "lfilter_zi b a = Inr zi \<Longrightarrow> length zi = max (length (strip_zeros a)) (length b) - 1"
  by (auto simp: lfilter_zi_def Let_def split: if_splits)

lemma lfilter_zi_ok:
  assumes "length a = length b" "2 \<le> length a" "a ! 0 = 1" "sum_list a \<noteq> 0"
  shows "\<exists>zi. lfilter_zi b a = Inr zi \<and> length zi = length a - 1"
proof -
  from assms have ne: "a \<noteq> []" and nz: "a ! 0 \<noteq> 0" by auto
  then have s: "strip_zeros a = a" by (rule strip_zeros_nonzero)
  have p: "pad_to (length b) a = a"
    using assms(1) by (simp add: pad_to_def)
  have m: "max (length a) (length b) = length b"
    using assms(1) by simp
  have d: "map (\<lambda>c. c / a ! 0) a = a"
    using assms(3) by simp
  have n2: "\<not> length b < 2"
    using assms(1,2) by simp
  show ?thesis
    unfolding lfilter_zi_def s Let_def m d p
    using ne nz n2 assms(1,4) by simp
qed

subsection \<open>Zero-phase filtering\<close>

lemma odd_ext_error: "odd_ext x n = Inl e \<Longrightarrow> e = ValueError"
  by (auto simp: odd_ext_def split: if_splits)

lemma odd_ext_length:
  assumes "odd_ext x n = Inr ext"
  shows "length ext = length x + 2 * n"
proof (cases "n < 1")
  case True
  with assms show ?thesis by (simp add: odd_ext_def)
next
  case False
  with assms have n: "n \<le> length x - 1" and ne: "x \<noteq> []"
    by (auto simp: odd_ext_def split: if_splits)
  with assms False have "ext = map (\<lambda>v. Fin 2 * hd x - v) (rev (take n (tl x))) @ x
      @ map (\<lambda>v. Fin 2 * last x - v) (take n (tl (rev x)))"
    by (auto simp: odd_ext_def split: if_splits)
  with n show ?thesis by simp
qed

lemma odd_ext_ok: "n < length x \<Longrightarrow> \<exists>ext. odd_ext x n = Inr ext"
  by (auto simp: odd_ext_def)

lemma filtfilt_short:
  "length x \<le> 3 * max (length a) (length b) \<Longrightarrow> filtfilt b a x = Inl ValueError"
  by (simp add: filtfilt_def Let_def)

lemma filtfilt_error: "filtfilt b a x = Inl e \<Longrightarrow> e = ValueError \<or> e = LinAlgError"
  by (auto simp: filtfilt_def Let_def split: if_splits sum.splits
           dest: odd_ext_error lfilter_zi_error lfilter_error)

lemma filtfilt_length:
  assumes "filtfilt b a x = Inr y"
  shows "length y = length x"
proof -
  define edge where "edge = 3 * max (length a) (length b)"
  from assms obtain ext zi y1 y2 where
    ext: "odd_ext x edge = Inr ext" and
    y1: "lfilter b a ext (map (\<lambda>c. Fin c * hd ext) zi) = Inr y1" and
    y2: "lfilter b a (rev y1) (map (\<lambda>c. Fin c * last y1) zi) = Inr y2" and
    y: "y = (if edge > 0 then drop edge (take (length y2 - edge) (rev y2)) else rev y2)"
    unfolding filtfilt_def Let_def edge_def[symmetric]
    by (auto split: if_splits sum.splits)
  have "length y2 = length x + 2 * edge"
    using lfilter_length[OF y2] lfilter_length[OF y1] odd_ext_length[OF ext] by simp
  with y show ?thesis by auto
qed

lemma filtfilt_ok:
  assumes "length a = length b" "2 \<le> length a" "a ! 0 = 1" "sum_list a \<noteq> 0"
    and "3 * length a < length x"
  shows "\<exists>y. filtfilt b a x = Inr y"
proof -
  define edge where "edge = 3 * max (length a) (length b)"
  have edge: "edge = 3 * length a" "\<not> length x \<le> edge"
    using assms(1,5) by (simp_all add: edge_def)
  then obtain ext where ext: "odd_ext x edge = Inr ext"
    using odd_ext_ok[of edge x] by auto
  obtain zi where zi: "lfilter_zi b a = Inr zi" "length zi = length a - 1"
    using lfilter_zi_ok[OF assms(1-4)] by blast
  have ne: "a \<noteq> []" "b \<noteq> []" "a ! 0 \<noteq> 0"
    using assms(1-3) by auto
  have lz: "length (map (\<lambda>c. Fin c * v) zi) = max (length a) (length b) - 1" for v
    using zi(2) assms(1) by simp
  obtain y1 where y1: "lfilter b a ext (map (\<lambda>c. Fin c * hd ext) zi) = Inr y1"
    using lfilter_ok[OF ne lz] by blast
  obtain y2 where y2: "lfilter b a (rev y1) (map (\<lambda>c. Fin c * last y1) zi) = Inr y2"
    using lfilter_ok[OF ne lz] by blast
  show ?thesis
    unfolding filtfilt_def Let_def edge_def[symmetric]
    using edge(2) ext zi(1) y1 y2 by simp
qed

subsection \<open>Polynomials from roots\<close>

lemma convolve_root_length: "length (convolve_root c r) = length c + 1"
  by (simp add: convolve_root_def)

lemma foldl_convolve_length: "length (foldl convolve_root c rs) = length c + length rs"
  by (induction rs arbitrary: c) (simp_all add: convolve_root_length)

lemma np_poly_length: "length (np_poly rs) = length rs + 1"
  by (simp add: np_poly_def foldl_convolve_length)

lemma convolve_root_head: "c \<noteq> [] \<Longrightarrow> convolve_root c r ! 0 = c ! 0"
  by (cases c) (simp_all add: convolve_root_def)

lemma convolve_root_nonempty: "convolve_root c r \<noteq> []"
  by (simp add: convolve_root_def)

lemma foldl_convolve_head: "c \<noteq> [] \<Longrightarrow> foldl convolve_root c rs ! 0 = c ! 0"
  by (induction rs arbitrary: c)
     (simp_all add: convolve_root_head convolve_root_nonempty)

lemma np_poly_head: "np_poly rs ! 0 = 1"
  by (simp add: np_poly_def foldl_convolve_head)

lemma sum_list_map2_add:
  fixes xs ys :: "complex list"
  shows "length xs = length ys \<Longrightarrow> sum_list (map2 (+) xs ys) = sum_list xs + sum_list ys"
  by (induction xs ys rule: list_induct2) simp_all

lemma convolve_root_sum: "sum_list (convolve_root c r) = (1 - r) * sum_list c"
proof -
  have "sum_list (convolve_root c r) = sum_list (c @ [0]) + sum_list (0 # map (\<lambda>v. - r * v) c)"
    unfolding convolve_root_def by (rule sum_list_map2_add) simp
  also have "\<dots> = sum_list c + (- r) * sum_list c"
  proof -
    have "sum_list (map (\<lambda>v. - r * v) c) = (- r) * sum_list c"
      by (induction c) (simp_all add: algebra_simps)
    then show ?thesis by simp
  qed
  finally show ?thesis by (simp add: algebra_simps)
qed

lemma foldl_convolve_sum:
  "sum_list (foldl convolve_root c rs) = prod_list (map (\<lambda>r. 1 - r) rs) * sum_list c"
  by (induction rs arbitrary: c) (simp_all add: convolve_root_sum)

lemma np_poly_sum: "sum_list (np_poly rs) = prod_list (map (\<lambda>r. 1 - r) rs)"
  by (simp add: np_poly_def foldl_convolve_sum)

lemma sum_list_Re: "sum_list (map Re cs) = Re (sum_list cs)"
  by (induction cs) simp_all

lemma zpk2tf_taps:
  assumes "zpk2tf (z, p, k) = (b, a)"
  shows "length b = length z + 1" and "length a = length p + 1" and "a ! 0 = 1"
    and "sum_list a = Re (prod_list (map (\<lambda>r. 1 - r) p))"
proof -
  from assms have b: "b = map (\<lambda>c. k * Re c) (np_poly z)" and a: "a = map Re (np_poly p)"
    by (simp_all add: zpk2tf_def)
  show "length b = length z + 1" by (simp add: b np_poly_length)
  show "length a = length p + 1" by (simp add: a np_poly_length)
  have "0 < length (np_poly p)" by (simp add: np_poly_length)
  then show "a ! 0 = 1" by (simp add: a np_poly_head)
  show "sum_list a = Re (prod_list (map (\<lambda>r. 1 - r) p))"
    by (simp add: a sum_list_Re np_poly_sum)
qed

subsection \<open>Conjugate pole pairs\<close>

lemma conj_pair_product: "(1 - r) * (1 - cnj r) = of_real ((cmod (1 - r))\<^sup>2)"
proof -
  have "(1 - r) * (1 - cnj r) = (1 - r) * cnj (1 - r)" by simp
  then show ?thesis by (simp only: complex_norm_square)
qed

lemma conj_pairs4:
  assumes "r0 \<noteq> 1" "r1 \<noteq> 1"
  shows "Re (prod_list (map (\<lambda>r. 1 - r) [r0, r1, cnj r1, cnj r0])) \<noteq> 0"
proof -
  have "prod_list (map (\<lambda>r. 1 - r) [r0, r1, cnj r1, cnj r0])
        = ((1 - r0) * (1 - cnj r0)) * ((1 - r1) * (1 - cnj r1))"
    by simp
  also have "\<dots> = of_real ((cmod (1 - r0))\<^sup>2 * (cmod (1 - r1))\<^sup>2)"
    by (simp only: conj_pair_product of_real_mult)
  finally show ?thesis using assms by simp
qed

lemma conj_pairs8:
  assumes "r0 \<noteq> 1" "r1 \<noteq> 1" "r2 \<noteq> 1" "r3 \<noteq> 1"
  shows "Re (prod_list (map (\<lambda>r. 1 - r)
           [r0, r1, cnj r1, cnj r0, r2, r3, cnj r3, cnj r2])) \<noteq> 0"
proof -
  have "prod_list (map (\<lambda>r. 1 - r) [r0, r1, cnj r1, cnj r0, r2, r3, cnj r3, cnj r2])
        = (((1 - r0) * (1 - cnj r0)) * ((1 - r1) * (1 - cnj r1)))
          * (((1 - r2) * (1 - cnj r2)) * ((1 - r3) * (1 - cnj r3)))"
    by simp
  also have "\<dots> = of_real ((cmod (1 - r0))\<^sup>2 * (cmod (1 - r1))\<^sup>2
                            * ((cmod (1 - r2))\<^sup>2 * (cmod (1 - r3))\<^sup>2))"
    by (simp only: conj_pair_product of_real_mult)
  finally show ?thesis using assms by simp
qed

lemma csqrt_cnj: "Im z \<noteq> 0 \<Longrightarrow> csqrt (cnj z) = cnj (csqrt z)"
  by (rule complex_eqI) (simp_all add: sgn_minus)

lemma upt_4: "[0..<4] = [0, 1, 2, 3]"
  by (simp add: upt_rec)

subsection \<open>The Butterworth designs of order four\<close>

lemma buttap_4:
  "buttap 4 = ([], [- cis (- (3 * pi / 8)), - cis (- (pi / 8)),
                    cnj (- cis (- (pi / 8))), cnj (- cis (- (3 * pi / 8)))], 1)"
  by (simp add: buttap_def upt_4 cis_cnj mult.commute)

lemma warp_pos: "0 < w \<Longrightarrow> w < 1 \<Longrightarrow> 0 < warp w"
proof -
  assume "0 < w" "w < 1"
  then have "0 < pi * w / 2" "pi * w / 2 < pi / 2"
    by simp_all
  then have "0 < tan (pi * w / 2)" by (rule tan_gt_zero)
  then show ?thesis by (simp add: warp_def)
qed

lemma warp_mono: "0 < w0 \<Longrightarrow> w0 < w1 \<Longrightarrow> w1 < 1 \<Longrightarrow> warp w0 < warp w1"
proof -
  assume "0 < w0" "w0 < w1" "w1 < 1"
  moreover from \<open>0 < w0\<close> have "0 < pi * w0" by simp
  then have "- pi < pi * w0" using pi_gt_zero by linarith
  ultimately have "- (pi / 2) < pi * w0 / 2" "pi * w0 / 2 < pi * w1 / 2" "pi * w1 / 2 < pi / 2"
    by simp_all
  then have "tan (pi * w0 / 2) < tan (pi * w1 / 2)" by (rule tan_monotone)
  then show ?thesis by (simp add: warp_def)
qed

lemma bilinear_pole_neq_1:
  fixes s :: complex
  assumes "s \<noteq> 0"
  shows "(4 + s) / (4 - s) \<noteq> 1"
proof
  assume eq: "(4 + s) / (4 - s) = 1"
  then have "4 - s \<noteq> 0" by auto
  with eq have "4 + s = 4 - s" by (simp add: divide_eq_eq)
  then have "2 * s = 0" by (simp add: algebra_simps)
  with assms show False by simp
qed

lemma taps_from_poles4:
  assumes "zpk2tf (z, [r0, r1, cnj r1, cnj r0], k) = (b, a)" "length z = 4"
    and "r0 \<noteq> 1" "r1 \<noteq> 1"
  shows "length b = 5 \<and> length a = 5 \<and> a ! 0 = 1 \<and> sum_list a \<noteq> 0"
  using zpk2tf_taps[OF assms(1)] conj_pairs4[OF assms(3,4)] assms(2) by simp

lemma butter_lowpass:
  assumes "0 < w" "w < 1"
  shows "\<exists>b a. butter 4 (Scalar w) Lowpass = Inr (b, a)
           \<and> length b = 5 \<and> length a = 5 \<and> a ! 0 = 1 \<and> sum_list a \<noteq> 0"
proof -
  define p0 :: complex where "p0 = - cis (- (3 * pi / 8))"
  define p1 :: complex where "p1 = - cis (- (pi / 8))"
  define r0 where "r0 = (4 + of_real (warp w) * p0) / (4 - of_real (warp w) * p0)"
  define r1 where "r1 = (4 + of_real (warp w) * p1) / (4 - of_real (warp w) * p1)"
  have wo: "warp w \<noteq> 0" using warp_pos[OF assms] by simp
  define z :: "complex list" where "z = [- 1, - 1, - 1, - 1]"
  have "\<exists>k. butter 4 (Scalar w) Lowpass = Inr (zpk2tf (z, [r0, r1, cnj r1, cnj r0], k))"
    using assms
    apply (simp add: butter_def buttap_4 lp2lp_zpk_def relative_degree_def bilinear_zpk_def
        r0_def r1_def p0_def p1_def z_def)
    apply (rule exI)
    apply (rule refl)
    done
  then obtain k where
    d: "butter 4 (Scalar w) Lowpass = Inr (zpk2tf (z, [r0, r1, cnj r1, cnj r0], k))"
    by blast
  have z: "length z = 4" by (simp add: z_def)
  obtain b a where ba: "zpk2tf (z, [r0, r1, cnj r1, cnj r0], k) = (b, a)"
    by (cases "zpk2tf (z, [r0, r1, cnj r1, cnj r0], k)")
  have "r0 \<noteq> 1" unfolding r0_def
    by (rule bilinear_pole_neq_1) (simp add: wo p0_def)
  moreover have "r1 \<noteq> 1" unfolding r1_def
    by (rule bilinear_pole_neq_1) (simp add: wo p1_def)
  ultimately show ?thesis
    using taps_from_poles4[OF ba z] d ba by simp
qed

lemma butter_highpass:
  assumes "0 < w" "w < 1"
  shows "\<exists>b a. butter 4 (Scalar w) Highpass = Inr (b, a)
           \<and> length b = 5 \<and> length a = 5 \<and> a ! 0 = 1 \<and> sum_list a \<noteq> 0"
proof -
  define p0 :: complex where "p0 = - cis (- (3 * pi / 8))"
  define p1 :: complex where "p1 = - cis (- (pi / 8))"
  define r0 where "r0 = (4 + of_real (warp w) / p0) / (4 - of_real (warp w) / p0)"
  define r1 where "r1 = (4 + of_real (warp w) / p1) / (4 - of_real (warp w) / p1)"
  have wo: "warp w \<noteq> 0" using warp_pos[OF assms] by simp
  define z :: "complex list" where "z = [1, 1, 1, 1]"
  have "\<exists>k. butter 4 (Scalar w) Highpass = Inr (zpk2tf (z, [r0, r1, cnj r1, cnj r0], k))"
    using assms
    apply (simp add: butter_def buttap_4 lp2hp_zpk_def relative_degree_def bilinear_zpk_def
        r0_def r1_def p0_def p1_def z_def)
    apply (rule exI)
    apply (rule refl)
    done
  then obtain k where
    d: "butter 4 (Scalar w) Highpass = Inr (zpk2tf (z, [r0, r1, cnj r1, cnj r0], k))"
    by blast
  have z: "length z = 4" by (simp add: z_def)
  obtain b a where ba: "zpk2tf (z, [r0, r1, cnj r1, cnj r0], k) = (b, a)"
    by (cases "zpk2tf (z, [r0, r1, cnj r1, cnj r0], k)")
  have "r0 \<noteq> 1" unfolding r0_def
    by (rule bilinear_pole_neq_1) (simp add: wo p0_def)
  moreover have "r1 \<noteq> 1" unfolding r1_def
    by (rule bilinear_pole_neq_1) (simp add: wo p1_def)
  ultimately show ?thesis
    using taps_from_poles4[OF ba z] d ba by simp
qed

lemma bandpass_pole_nonzero:
  fixes s :: complex
  assumes "wo \<noteq> 0"
  shows "s + csqrt (s\<^sup>2 - (of_real wo)\<^sup>2) \<noteq> 0" and "s - csqrt (s\<^sup>2 - (of_real wo)\<^sup>2) \<noteq> 0"
proof -
  have sq: "(csqrt (s\<^sup>2 - (of_real wo)\<^sup>2))\<^sup>2 = s\<^sup>2 - (of_real wo)\<^sup>2"
    by (rule power2_csqrt)
  have wz: "(complex_of_real wo)\<^sup>2 \<noteq> 0" using assms by simp
  show "s + csqrt (s\<^sup>2 - (of_real wo)\<^sup>2) \<noteq> 0"
  proof
    assume "s + csqrt (s\<^sup>2 - (of_real wo)\<^sup>2) = 0"
    then have "csqrt (s\<^sup>2 - (of_real wo)\<^sup>2) = - s"
      by (simp add: add_eq_0_iff)
    with sq have "s\<^sup>2 = s\<^sup>2 - (of_real wo)\<^sup>2" by simp
    with wz show False by simp
  qed
  show "s - csqrt (s\<^sup>2 - (of_real wo)\<^sup>2) \<noteq> 0"
  proof
    assume "s - csqrt (s\<^sup>2 - (of_real wo)\<^sup>2) = 0"
    then have "csqrt (s\<^sup>2 - (of_real wo)\<^sup>2) = s" by simp
    with sq have "s\<^sup>2 = s\<^sup>2 - (of_real wo)\<^sup>2" by simp
    with wz show False by simp
  qed
qed

lemma Im_scaled_pole_square:
  "Im ((- cis t * of_real c / 2)\<^sup>2 - (of_real wo)\<^sup>2) = sin (2 * t) * c\<^sup>2 / 4"
proof -
  have "cis t * cis t = cis (2 * t)"
    by (simp add: cis_mult)
  then have "(- cis t * of_real c / 2)\<^sup>2 = cis (2 * t) * of_real (c\<^sup>2 / 4)"
    by (simp add: power2_eq_square)
  moreover have "Im ((of_real wo :: complex)\<^sup>2) = 0"
    by (simp add: power2_eq_square)
  ultimately show ?thesis
    by (simp del: of_real_power of_real_divide)
qed

lemma sin_quarter_turns: "sin (2 * - (3 * pi / 8)) \<noteq> 0" "sin (2 * - (pi / 8)) \<noteq> 0"
proof -
  have "0 < sin (3 * pi / 4)" by (rule sin_gt_zero) simp_all
  then show "sin (2 * - (3 * pi / 8)) \<noteq> 0" by simp
  have "0 < sin (pi / 4)" by (rule sin_gt_zero) simp_all
  then show "sin (2 * - (pi / 8)) \<noteq> 0" by simp
qed

lemma taps_from_poles8:
  assumes "zpk2tf (z, [r0, r1, cnj r1, cnj r0, r2, r3, cnj r3, cnj r2], k) = (b, a)"
    and "length z = 8" and "r0 \<noteq> 1" "r1 \<noteq> 1" "r2 \<noteq> 1" "r3 \<noteq> 1"
  shows "length b = 9 \<and> length a = 9 \<and> a ! 0 = 1 \<and> sum_list a \<noteq> 0"
  using zpk2tf_taps[OF assms(1)] conj_pairs8[OF assms(3-6)] assms(2) by simp

lemma bandpass_chain:
  assumes "s0 = - cis (- (3 * pi / 8)) * of_real bw / 2"
    and "s1 = - cis (- (pi / 8)) * of_real bw / 2"
    and "P = (\<lambda>s::complex. s + csqrt (s\<^sup>2 - (of_real wo)\<^sup>2))"
    and "M = (\<lambda>s::complex. s - csqrt (s\<^sup>2 - (of_real wo)\<^sup>2))"
    and "B = (\<lambda>s::complex. (4 + s) / (4 - s))"
  shows "\<exists>k. (case lp2bp_zpk (buttap 4) wo bw of
                 Inl e \<Rightarrow> Inl e
               | Inr analog \<Rightarrow>
                   (case bilinear_zpk analog 2 of
                      Inl e \<Rightarrow> Inl e
                    | Inr digital \<Rightarrow> Inr (zpk2tf digital)))
             = (Inr (zpk2tf ([1, 1, 1, 1, - 1, - 1, - 1, - 1],
                        [B (P s0), B (P s1), B (P (cnj s1)), B (P (cnj s0)),
                         B (M s0), B (M s1), B (M (cnj s1)), B (M (cnj s0))], k))
                :: exn + real list \<times> real list)"
  unfolding assms
  apply (simp add: buttap_4 lp2bp_zpk_def relative_degree_def bilinear_zpk_def Let_def)
  apply (rule exI)
  apply (rule refl)
  done

lemma butter_bandpass:
  assumes "0 < w0" "w0 < w1" "w1 < 1"
  shows "\<exists>b a. butter 4 (Pair w0 w1) Bandpass = Inr (b, a)
           \<and> length b = 9 \<and> length a = 9 \<and> a ! 0 = 1 \<and> sum_list a \<noteq> 0"
proof -
  define wo where "wo = sqrt (warp w0 * warp w1)"
  define bw where "bw = warp w1 - warp w0"
  define s0 :: complex where "s0 = - cis (- (3 * pi / 8)) * of_real bw / 2"
  define s1 :: complex where "s1 = - cis (- (pi / 8)) * of_real bw / 2"
  define P where "P = (\<lambda>s::complex. s + csqrt (s\<^sup>2 - (of_real wo)\<^sup>2))"
  define M where "M = (\<lambda>s::complex. s - csqrt (s\<^sup>2 - (of_real wo)\<^sup>2))"
  define B where "B = (\<lambda>s::complex. (4 + s) / (4 - s))"
  define z :: "complex list" where "z = [1, 1, 1, 1, - 1, - 1, - 1, - 1]"
  have w1: "0 < w1" "w0 < 1" using assms by simp_all
  have "0 < warp w0 * warp w1"
    using warp_pos[OF assms(1) w1(2)] warp_pos[OF w1(1) assms(3)] by simp
  then have wo: "wo \<noteq> 0" by (auto simp: wo_def)
  have bw: "bw \<noteq> 0" using warp_mono[OF assms] by (simp add: bw_def)
  have "butter 4 (Pair w0 w1) Bandpass
          = (case lp2bp_zpk (buttap 4) wo bw of
                 Inl e \<Rightarrow> Inl e
               | Inr analog \<Rightarrow>
                   (case bilinear_zpk analog 2 of
                      Inl e \<Rightarrow> Inl e
                    | Inr digital \<Rightarrow> Inr (zpk2tf digital)))"
    using assms w1 by (simp add: butter_def wo_def bw_def)
  with bandpass_chain[OF s0_def s1_def P_def M_def B_def] obtain k where
    d: "butter 4 (Pair w0 w1) Bandpass
          = Inr (zpk2tf (z, [B (P s0), B (P s1), B (P (cnj s1)), B (P (cnj s0)),
                           B (M s0), B (M s1), B (M (cnj s1)), B (M (cnj s0))], k))"
    unfolding z_def by metis
  have im0: "Im (s0\<^sup>2 - (of_real wo)\<^sup>2) \<noteq> 0"
    unfolding s0_def Im_scaled_pole_square using sin_quarter_turns(1) bw by simp
  have im1: "Im (s1\<^sup>2 - (of_real wo)\<^sup>2) \<noteq> 0"
    unfolding s1_def Im_scaled_pole_square using sin_quarter_turns(2) bw by simp
  have c0: "csqrt ((cnj s0)\<^sup>2 - (of_real wo)\<^sup>2) = cnj (csqrt (s0\<^sup>2 - (of_real wo)\<^sup>2))"
    using csqrt_cnj[OF im0] by simp
  have c1: "csqrt ((cnj s1)\<^sup>2 - (of_real wo)\<^sup>2) = cnj (csqrt (s1\<^sup>2 - (of_real wo)\<^sup>2))"
    using csqrt_cnj[OF im1] by simp
  have cn: "B (P (cnj s0)) = cnj (B (P s0))" "B (P (cnj s1)) = cnj (B (P s1))"
    "B (M (cnj s0)) = cnj (B (M s0))" "B (M (cnj s1)) = cnj (B (M s1))"
    by (simp_all add: B_def P_def M_def c0 c1)
  obtain b a where ba: "zpk2tf (z, [B (P s0), B (P s1), cnj (B (P s1)), cnj (B (P s0)),
                           B (M s0), B (M s1), cnj (B (M s1)), cnj (B (M s0))], k) = (b, a)"
    by (cases "zpk2tf (z, [B (P s0), B (P s1), cnj (B (P s1)), cnj (B (P s0)),
                           B (M s0), B (M s1), cnj (B (M s1)), cnj (B (M s0))], k)")
  have z: "length z = 8" by (simp add: z_def)
  have ne: "B (P s0) \<noteq> 1" "B (P s1) \<noteq> 1" "B (M s0) \<noteq> 1" "B (M s1) \<noteq> 1"
    unfolding B_def P_def M_def
    by (rule bilinear_pole_neq_1, rule bandpass_pole_nonzero[OF wo])+
  show ?thesis
    using taps_from_poles8[OF ba z ne] d ba unfolding cn by simp
qed

subsection \<open>The gain of the three designs at frequency zero\<close>

lemma zpk2tf_numerator_sum:
  assumes "zpk2tf (z, p, k) = (b, a)"
  shows "sum_list b = k * Re (prod_list (map (\<lambda>r. 1 - r) z))"
proof -
  from assms have b: "b = map (\<lambda>c. k * Re c) (np_poly z)"
    by (simp add: zpk2tf_def)
  have "sum_list (map (\<lambda>c. k * Re c) cs) = k * Re (sum_list cs)" for cs
    by (induction cs) (simp_all add: algebra_simps)
  then show ?thesis by (simp add: b np_poly_sum)
qed

lemma highpass_chain:
  "\<exists>p k. (case lp2hp_zpk (buttap 4) wo of
             Inl e \<Rightarrow> Inl e
           | Inr analog \<Rightarrow>
               (case bilinear_zpk analog 2 of
                  Inl e \<Rightarrow> Inl e
                | Inr digital \<Rightarrow> Inr (zpk2tf digital)))
          = (Inr (zpk2tf ([1, 1, 1, 1], p, k)) :: exn + real list \<times> real list)"
  apply (simp add: buttap_4 lp2hp_zpk_def relative_degree_def bilinear_zpk_def Let_def)
  apply (intro exI)
  apply (rule refl)
  done

lemma butter_highpass_dc:
  assumes "0 < w" "w < 1" "butter 4 (Scalar w) Highpass = Inr (b, a)"
  shows "sum_list b = 0"
proof -
  have "butter 4 (Scalar w) Highpass
          = (case lp2hp_zpk (buttap 4) (warp w) of
                 Inl e \<Rightarrow> Inl e
               | Inr analog \<Rightarrow>
                   (case bilinear_zpk analog 2 of
                      Inl e \<Rightarrow> Inl e
                    | Inr digital \<Rightarrow> Inr (zpk2tf digital)))"
    using assms(1,2) by (simp add: butter_def)
  with highpass_chain[of "warp w"] assms(3) obtain p k where
    "zpk2tf ([1, 1, 1, 1], p, k) = (b, a)" by auto
  from zpk2tf_numerator_sum[OF this] show ?thesis by simp
qed

lemma butter_bandpass_dc:
  assumes "0 < w0" "w0 < w1" "w1 < 1" "butter 4 (Pair w0 w1) Bandpass = Inr (b, a)"
  shows "sum_list b = 0"
proof -
  have w: "0 < w1" "w0 < 1" using assms by simp_all
  have "butter 4 (Pair w0 w1) Bandpass
          = (case lp2bp_zpk (buttap 4) (sqrt (warp w0 * warp w1)) (warp w1 - warp w0) of
                 Inl e \<Rightarrow> Inl e
               | Inr analog \<Rightarrow>
                   (case bilinear_zpk analog 2 of
                      Inl e \<Rightarrow> Inl e
                    | Inr digital \<Rightarrow> Inr (zpk2tf digital)))"
    using assms(1-3) w by (simp add: butter_def)
  with bandpass_chain[OF refl refl refl refl refl,
      of "sqrt (warp w0 * warp w1)" "warp w1 - warp w0"] assms(4)
  obtain p k where "zpk2tf ([1, 1, 1, 1, - 1, - 1, - 1, - 1], p, k) = (b, a)"
    by auto
  from zpk2tf_numerator_sum[OF this] show ?thesis by simp
qed

lemma lowpass_chain:
  assumes "s0 = of_real wo * (- cis (- (3 * pi / 8)))"
    and "s1 = of_real wo * (- cis (- (pi / 8)))"
  shows "(case lp2lp_zpk (buttap 4) wo of
             Inl e \<Rightarrow> Inl e
           | Inr analog \<Rightarrow>
               (case bilinear_zpk analog 2 of
                  Inl e \<Rightarrow> Inl e
                | Inr digital \<Rightarrow> Inr (zpk2tf digital)))
          = (Inr (zpk2tf ([- 1, - 1, - 1, - 1],
                    [(4 + s0) / (4 - s0), (4 + s1) / (4 - s1),
                     cnj ((4 + s1) / (4 - s1)), cnj ((4 + s0) / (4 - s0))],
                    wo ^ 4 * Re (1 / ((4 - s0) * ((4 - s1) * ((4 - cnj s1) * (4 - cnj s0)))))))
             :: exn + real list \<times> real list)"
  unfolding assms
  by (simp add: buttap_4 lp2lp_zpk_def relative_degree_def bilinear_zpk_def Let_def
      power4_eq_xxxx mult.assoc)

lemma dc_lowpass_algebra:
  fixes s0 s1 :: complex
  assumes "4 - s0 \<noteq> 0" "4 - s1 \<noteq> 0"
    and "s0 * cnj s0 = of_real (wo\<^sup>2)" "s1 * cnj s1 = of_real (wo\<^sup>2)"
  shows "prod_list (map (\<lambda>r. 1 - r) [(4 + s0) / (4 - s0), (4 + s1) / (4 - s1),
                     cnj ((4 + s1) / (4 - s1)), cnj ((4 + s0) / (4 - s0))])
         = of_real (16 * wo ^ 4) * (1 / ((4 - s0) * ((4 - s1) * ((4 - cnj s1) * (4 - cnj s0)))))"
proof -
  have f: "1 - (4 + s) / (4 - s) = - 2 * s / (4 - s)" if "4 - s \<noteq> 0" for s :: complex
    using that by (simp add: field_simps)
  have c0: "4 - cnj s0 \<noteq> 0" and c1: "4 - cnj s1 \<noteq> 0"
    using assms(1,2)
    by (metis complex_cnj_cancel_iff complex_cnj_diff complex_cnj_numeral complex_cnj_zero)+
  have "prod_list (map (\<lambda>r. 1 - r) [(4 + s0) / (4 - s0), (4 + s1) / (4 - s1),
                     cnj ((4 + s1) / (4 - s1)), cnj ((4 + s0) / (4 - s0))])
        = (- 2 * s0 / (4 - s0)) * ((- 2 * s1 / (4 - s1))
            * ((- 2 * cnj s1 / (4 - cnj s1)) * (- 2 * cnj s0 / (4 - cnj s0))))"
    by (simp add: f[OF assms(1)] f[OF assms(2)] f[OF c0] f[OF c1])
  also have "\<dots> = 16 * ((s0 * cnj s0) * (s1 * cnj s1))
                    / ((4 - s0) * ((4 - s1) * ((4 - cnj s1) * (4 - cnj s0))))"
    by simp
  also have "\<dots> = of_real (16 * wo ^ 4)
                    * (1 / ((4 - s0) * ((4 - s1) * ((4 - cnj s1) * (4 - cnj s0)))))"
    unfolding assms(3,4) by (simp add: power4_eq_xxxx power2_eq_square)
  finally show ?thesis .
qed

lemma butter_pole_offset:
  assumes "0 < wo" "- (pi / 2) < t" "t < pi / 2"
  shows "4 - of_real wo * (- cis t) \<noteq> 0"
proof -
  have "0 < cos t" using assms(2,3) by (rule cos_gt_zero_pi)
  then have pos: "0 < 4 + wo * cos t"
    using assms(1) by (simp add: add_pos_pos)
  show ?thesis
  proof
    assume "4 - of_real wo * (- cis t) = 0"
    then have "Re (4 - of_real wo * (- cis t)) = Re 0" by (rule arg_cong)
    then have "4 + wo * cos t = 0" by simp
    with pos show False by simp
  qed
qed

lemma butter_lowpass_dc:
  assumes "0 < w" "w < 1" "butter 4 (Scalar w) Lowpass = Inr (b, a)"
  shows "sum_list b = sum_list a"
proof -
  define wo where "wo = warp w"
  define s0 :: complex where "s0 = of_real wo * (- cis (- (3 * pi / 8)))"
  define s1 :: complex where "s1 = of_real wo * (- cis (- (pi / 8)))"
  define D where "D = (4 - s0) * ((4 - s1) * ((4 - cnj s1) * (4 - cnj s0)))"
  have wo: "0 < wo" unfolding wo_def using assms(1,2) by (rule warp_pos)
  have "butter 4 (Scalar w) Lowpass
          = (case lp2lp_zpk (buttap 4) wo of
                 Inl e \<Rightarrow> Inl e
               | Inr analog \<Rightarrow>
                   (case bilinear_zpk analog 2 of
                      Inl e \<Rightarrow> Inl e
                    | Inr digital \<Rightarrow> Inr (zpk2tf digital)))"
    using assms(1,2) by (simp add: butter_def wo_def)
  with lowpass_chain[OF s0_def s1_def] assms(3)
  have ba: "zpk2tf ([- 1, - 1, - 1, - 1],
              [(4 + s0) / (4 - s0), (4 + s1) / (4 - s1),
               cnj ((4 + s1) / (4 - s1)), cnj ((4 + s0) / (4 - s0))],
              wo ^ 4 * Re (1 / D)) = (b, a)"
    unfolding D_def by simp
  have d0: "4 - s0 \<noteq> 0" unfolding s0_def
    by (rule butter_pole_offset[OF wo]) (simp_all add: field_simps)
  have d1: "4 - s1 \<noteq> 0" unfolding s1_def
    by (rule butter_pole_offset[OF wo]) (simp_all add: field_simps)
  have n0: "s0 * cnj s0 = of_real (wo\<^sup>2)" and n1: "s1 * cnj s1 = of_real (wo\<^sup>2)"
    by (simp_all add: s0_def s1_def power2_eq_square cis_cnj cis_mult)
  have "sum_list a = Re (of_real (16 * wo ^ 4) * (1 / D))"
    unfolding D_def zpk2tf_taps(4)[OF ba] dc_lowpass_algebra[OF d0 d1 n0 n1] ..
  also have "\<dots> = 16 * wo ^ 4 * Re (1 / D)"
  proof -
    have "Re (of_real r * z) = r * Re z" for r z by simp
    then show ?thesis .
  qed
  finally have sa: "sum_list a = 16 * wo ^ 4 * Re (1 / D)" .
  have "sum_list b = wo ^ 4 * Re (1 / D) * 16"
    using zpk2tf_numerator_sum[OF ba] by simp
  with sa show ?thesis by simp
qed

subsection \<open>Overflow\<close>

lemma no_overflow: "\<bar>x\<bar> \<le> 10 ^ 300 \<Longrightarrow> \<not> overflows x"
proof -
  have "(10::real) ^ 300 < max_double + 2 ^ 970"
    by (simp add: max_double_def)
  then show "\<bar>x\<bar> \<le> 10 ^ 300 \<Longrightarrow> \<not> overflows x"
    by (simp add: overflows_def)
qed


lemma sample_rate_no_overflow: "0 \<le> sr \<Longrightarrow> sr \<le> 192000 \<Longrightarrow> \<not> overflows (real_of_int sr / 2)"
proof -
  assume "0 \<le> sr" "sr \<le> 192000"
  then have "\<bar>real_of_int sr / 2\<bar> \<le> 192000" by simp
  also have "\<dots> \<le> 10 ^ 300" by simp
  finally show ?thesis by (rule no_overflow)
qed

lemma gain_factor_ok:
  assumes "gain \<le> 6000"
  shows "gain_factor gain = Inr (db_to_linear gain)"
proof -
  have "gain / 20 \<le> 300" using assms by simp
  then have "(10::real) powr (gain / 20) \<le> 10 powr 300"
    by (rule powr_mono) simp
  moreover have "(10::real) powr 300 = 10 ^ 300"
    by (simp only: powr_numeral[symmetric])
  ultimately have "db_to_linear gain \<le> 10 ^ 300"
    by (simp only: db_to_linear_def)
  then have "\<bar>db_to_linear gain\<bar> \<le> 10 ^ 300"
    using db_to_linear_pos[of gain] by simp
  then show ?thesis by (simp add: gain_factor_def no_overflow)
qed


lemma gain_factor_error: "gain_factor gain = Inl e \<Longrightarrow> e = OverflowError"
  by (simp add: gain_factor_def split: if_splits)

lemma gain_factor_value: "gain_factor gain = Inr k \<Longrightarrow> k = db_to_linear gain"
  by (simp add: gain_factor_def split: if_splits)

subsection \<open>Filter design in apply\_eq\<close>

lemma relative_degree_error: "relative_degree z p = Inl e \<Longrightarrow> e = ValueError"
  by (simp add: relative_degree_def split: if_splits)

lemma lp2lp_zpk_error: "lp2lp_zpk f wo = Inl e \<Longrightarrow> e = ValueError"
  by (auto simp: lp2lp_zpk_def split: prod.splits sum.splits dest: relative_degree_error)

lemma lp2hp_zpk_error: "lp2hp_zpk f wo = Inl e \<Longrightarrow> e = ValueError"
  by (auto simp: lp2hp_zpk_def split: prod.splits sum.splits dest: relative_degree_error)

lemma lp2bp_zpk_error: "lp2bp_zpk f wo bw = Inl e \<Longrightarrow> e = ValueError"
  by (auto simp: lp2bp_zpk_def Let_def split: prod.splits sum.splits
           dest: relative_degree_error)

lemma bilinear_zpk_error: "bilinear_zpk f fs = Inl e \<Longrightarrow> e = ValueError"
  by (auto simp: bilinear_zpk_def Let_def split: prod.splits sum.splits
           dest: relative_degree_error)

lemma butter_error:
  assumes "butter N Wn bt = Inl e"
  shows "e = ValueError"
  using assms unfolding butter_def
  by (auto split: if_splits sum.splits btype.splits wn.splits
           dest: lp2lp_zpk_error lp2hp_zpk_error lp2bp_zpk_error bilinear_zpk_error)

text \<open>The exception a failing design ends with.\<close>

lemma design_filters_error:
  assumes "design_filters sr = Inl e"
  shows "e = (if overflows (real_of_int sr / 2) then OverflowError
              else if sr = 0 then ZeroDivisionError else ValueError)"
  using assms unfolding design_filters_def Let_def
  by (auto split: if_splits sum.splits dest: butter_error)

lemma highpass_rejected:
  assumes "sr \<le> 8000" "sr \<noteq> 0"
  shows "butter 4 (Scalar (max 4000 1 / (real_of_int sr / 2))) Highpass = Inl ValueError"
proof -
  have "max 4000 1 / (real_of_int sr / 2) \<le> 0 \<or> max 4000 1 / (real_of_int sr / 2) \<ge> 1"
  proof (cases "sr < 0")
    case True
    then have "8000 / real_of_int sr \<le> 0"
      by (simp add: divide_le_0_iff)
    then show ?thesis by simp
  next
    case False
    with assms have "0 < real_of_int sr" "real_of_int sr \<le> 8000" by simp_all
    then show ?thesis by (simp add: le_divide_eq)
  qed
  then show ?thesis by (auto simp: butter_def)
qed

lemma design_filters_fail:
  assumes "sr \<le> 8000"
  shows "design_filters sr = Inl (if overflows (real_of_int sr / 2) then OverflowError
                                  else if sr = 0 then ZeroDivisionError else ValueError)"
proof (cases "design_filters sr")
  case (Inl e)
  then show ?thesis using design_filters_error by simp
next
  case (Inr r)
  then have "sr \<noteq> 0"
    by (auto simp: design_filters_def split: if_splits)
  from highpass_rejected[OF assms this] Inr show ?thesis
    by (auto simp: design_filters_def Let_def split: if_splits sum.splits)
qed

lemma design_filters_ok:
  assumes "8000 < sr" "\<not> overflows (real_of_int sr / 2)"
  shows "\<exists>b_low a_low b_mid a_mid b_high a_high.
           design_filters sr = Inr ((b_low, a_low), (b_mid, a_mid), (b_high, a_high))
           \<and> length b_low = 5 \<and> length a_low = 5 \<and> a_low ! 0 = 1 \<and> sum_list a_low \<noteq> 0
           \<and> length b_mid = 9 \<and> length a_mid = 9 \<and> a_mid ! 0 = 1 \<and> sum_list a_mid \<noteq> 0
           \<and> length b_high = 5 \<and> length a_high = 5 \<and> a_high ! 0 = 1 \<and> sum_list a_high \<noteq> 0"
proof -
  define nyquist where "nyquist = real_of_int sr / 2"
  from assms(1) have "8001 \<le> sr" by simp
  then have "8001 \<le> real_of_int sr" by linarith
  then have ny: "4000 < nyquist" "nyquist \<noteq> 0" "0 < nyquist"
    by (simp_all add: nyquist_def)
  have low: "0 < min 250 (nyquist - 1) / nyquist" "min 250 (nyquist - 1) / nyquist < 1"
    using ny by (simp_all add: min_def)
  have mid: "0 < max 250 1 / nyquist"
    "max 250 1 / nyquist < min 4000 (nyquist - 1) / nyquist"
    "min 4000 (nyquist - 1) / nyquist < 1"
    using ny by (simp_all add: min_def divide_strict_right_mono)
  have high: "0 < max 4000 1 / nyquist" "max 4000 1 / nyquist < 1"
    using ny by simp_all
  from butter_lowpass[OF low] obtain b_low a_low where
    l: "butter 4 (Scalar (min 250 (nyquist - 1) / nyquist)) Lowpass = Inr (b_low, a_low)"
       "length b_low = 5" "length a_low = 5" "a_low ! 0 = 1" "sum_list a_low \<noteq> 0"
    by blast
  from butter_bandpass[OF mid] obtain b_mid a_mid where
    m: "butter 4 (Pair (max 250 1 / nyquist) (min 4000 (nyquist - 1) / nyquist)) Bandpass
          = Inr (b_mid, a_mid)"
       "length b_mid = 9" "length a_mid = 9" "a_mid ! 0 = 1" "sum_list a_mid \<noteq> 0"
    by blast
  from butter_highpass[OF high] obtain b_high a_high where
    h: "butter 4 (Scalar (max 4000 1 / nyquist)) Highpass = Inr (b_high, a_high)"
       "length b_high = 5" "length a_high = 5" "a_high ! 0 = 1" "sum_list a_high \<noteq> 0"
    by blast
  have "\<not> overflows nyquist" using assms(2) by (simp add: nyquist_def)
  then have "design_filters sr = Inr ((b_low, a_low), (b_mid, a_mid), (b_high, a_high))"
    unfolding design_filters_def Let_def nyquist_def[symmetric]
    using ny(2) by (simp only: l(1) m(1) h(1) if_False sum.case)
  with l(2-) m(2-) h(2-) show ?thesis by blast
qed

subsection \<open>Constant signals: the steady state\<close>

text \<open>
  The initial state \<open>lfilter_zi\<close> computes is the steady state of the step response: started
  from \<open>zi * c\<close> on the constant finite input \<open>c\<close>, the recurrence stays in \<open>zi * c\<close> and
  puts out \<open>c\<close> times the gain at frequency zero, \<open>sum(b) / sum(a)\<close>.
\<close>

lemma sum_list_take_Suc:
  fixes xs :: "real list"
  shows "k < length xs \<Longrightarrow> sum_list (take (Suc k) xs) = sum_list (take k xs) + xs ! k"
  by (simp add: take_Suc_conv_app_nth)

lemma lfilter_zi_steady:
  assumes len: "length a = n" "length b = n" "2 \<le> n"
    and a0: "a ! 0 = 1" and sa: "sum_list a \<noteq> 0"
    and zi: "lfilter_zi b a = Inr zi"
  shows "lfilter_step b a (map (\<lambda>z. Fin z * Fin c) zi) (Fin c)
           = (Fin (c * (sum_list b / sum_list a)), map (\<lambda>z. Fin z * Fin c) zi)"
proof -
  define B where "B = map (\<lambda>k. b ! k - a ! k * b ! 0) [1..<n]"
  define z0 where "z0 = sum_list B / sum_list a"
  define S where "S k = sum_list (take k a)" for k
  define C where "C k = sum_list (take k B)" for k
  define T where "T k = sum_list (take k b)" for k
  define Z where "Z i = S (Suc i) * z0 - C i" for i
  have ne: "a \<noteq> []" "a ! 0 \<noteq> 0" using len a0 by auto
  have s: "strip_zeros a = a" using ne by (rule strip_zeros_nonzero)
  have pa: "pad_to n a = a" and pb: "pad_to n b = b"
    using len by (simp_all add: pad_to_def)
  have d: "map (\<lambda>c. c / a ! 0) a = a" "map (\<lambda>c. c / a ! 0) b = b"
    using a0 by simp_all
  have m: "max (length a) (length b) = n" using len by simp
  have n2: "\<not> n < 2" using len by simp
  have zi_eq: "zi = map Z [0..<n - 1]"
    using zi unfolding lfilter_zi_def s Let_def m d pa pb
    using ne sa n2 by (auto simp: Z_def[abs_def] S_def C_def z0_def B_def)
  have lB: "length B = n - 1" by (simp add: B_def)
  have Bk: "B ! k = b ! Suc k - a ! Suc k * b ! 0" if "k < n - 1" for k
    using that by (simp add: B_def)
  have S_Suc: "S (Suc k) = S k + a ! k" if "k < n" for k
    using that len unfolding S_def by (simp add: sum_list_take_Suc)
  have T_Suc: "T (Suc k) = T k + b ! k" if "k < n" for k
    using that len unfolding T_def by (simp add: sum_list_take_Suc)
  have C_Suc: "C (Suc k) = C k + (b ! Suc k - a ! Suc k * b ! 0)" if "k < n - 1" for k
    using that lB Bk unfolding C_def by (simp add: sum_list_take_Suc)
  have S1: "S (Suc 0) = 1"
    using S_Suc[of 0] len a0 by (simp add: S_def)
  have T1: "T (Suc 0) = b ! 0"
    using T_Suc[of 0] len by (simp add: T_def)
  have C_closed: "C k = (T (Suc k) - b ! 0) - (S (Suc k) - 1) * b ! 0" if "k \<le> n - 1" for k
    using that
  proof (induction k)
    case 0
    show ?case by (simp add: S1 T1 C_def)
  next
    case (Suc k)
    then have k: "k < n - 1" "Suc k < n" by simp_all
    from Suc have "C k = (T (Suc k) - b ! 0) - (S (Suc k) - 1) * b ! 0" by simp
    then show ?case
      by (simp add: C_Suc[OF k(1)] S_Suc[OF k(2)] T_Suc[OF k(2)] algebra_simps)
  qed
  have Sn: "S n = sum_list a" and Tn: "T n = sum_list b" and Cn: "C (n - 1) = sum_list B"
    using len lB by (simp_all add: S_def T_def C_def)
  have n1: "Suc (n - 1) = n" using len by simp
  have "C (n - 1) = (T n - b ! 0) - (S n - 1) * b ! 0"
    using C_closed[of "n - 1"] unfolding n1 by simp
  then have sumB: "sum_list B = sum_list b - b ! 0 * sum_list a"
    unfolding Sn Tn Cn by (simp add: algebra_simps)
  have gain: "b ! 0 + z0 = sum_list b / sum_list a"
    using sa by (simp add: z0_def sumB field_simps)
  have "Z (n - 1) = S n * z0 - C (n - 1)"
    unfolding Z_def n1 ..
  then have Zlast: "Z (n - 1) = 0"
    unfolding Sn Cn using sa by (simp add: z0_def)
  have Zrec: "Z (Suc i) = Z i + a ! Suc i * z0 - (b ! Suc i - a ! Suc i * b ! 0)"
    if "i < n - 1" for i
  proof -
    from that have "Suc i < n" by simp
    from S_Suc[OF this] C_Suc[OF that] show ?thesis
      by (simp add: Z_def algebra_simps)
  qed
  have Z0: "Z 0 = z0" by (simp add: Z_def S1 C_def)
  have zne: "zi \<noteq> []" and z_hd: "zi ! 0 = z0" and lz: "length zi = n - 1"
    using len Z0 by (auto simp: zi_eq)
  define g where "g = sum_list b / sum_list a"
  have g: "b ! 0 + z0 = g" by (simp add: gain g_def)
  have st: "map (\<lambda>z. Fin z * Fin c) zi = map (\<lambda>z. Fin (z * c)) zi"
    by simp
  have hd_case: "(case map (\<lambda>z. Fin (z * c)) zi of
                    [] \<Rightarrow> Fin c * Fin (b ! 0)
                  | v # vs \<Rightarrow> v + Fin (b ! 0) * Fin c) = Fin (c * g)"
  proof -
    from zne z_hd obtain zs where zi: "zi = z0 # zs" by (cases zi) auto
    have "z0 * c + b ! 0 * c = c * g"
      by (simp add: algebra_simps flip: g)
    then show ?thesis by (simp add: zi)
  qed
  define F where "F i = (if i + 1 < n - 1
                         then zi ! (i + 1) * c + c * b ! (i + 1) - c * g * a ! (i + 1)
                         else c * b ! (i + 1) - c * g * a ! (i + 1))" for i
  have next_state: "F i = Z i * c" if "i < n - 1" for i
  proof -
    have rec: "Z (Suc i) + b ! Suc i - (b ! 0 + z0) * a ! Suc i = Z i"
      unfolding Zrec[OF that] by (simp add: algebra_simps)
    have "F i = (Z (Suc i) + b ! Suc i - (b ! 0 + z0) * a ! Suc i) * c"
    proof (cases "i + 1 < n - 1")
      case True
      then have "zi ! (i + 1) = Z (Suc i)" by (simp add: zi_eq)
      with True show ?thesis
        unfolding F_def g[symmetric] by (simp add: algebra_simps)
    next
      case False
      with that have "Suc i = n - 1" by simp
      with Zlast have "Z (Suc i) = 0" by simp
      with False show ?thesis
        unfolding F_def g[symmetric] by (simp add: algebra_simps)
    qed
    then show ?thesis unfolding rec .
  qed
  have "map (\<lambda>i. if i + 1 < length (map (\<lambda>z. Fin (z * c)) zi)
                  then map (\<lambda>z. Fin (z * c)) zi ! (i + 1) + Fin c * Fin (b ! (i + 1))
                         - Fin (c * g) * Fin (a ! (i + 1))
                  else Fin c * Fin (b ! (i + 1)) - Fin (c * g) * Fin (a ! (i + 1)))
          [0..<length (map (\<lambda>z. Fin (z * c)) zi)]
        = map (\<lambda>z. Fin (z * c)) zi"
  proof (rule nth_equalityI)
    show "length (map (\<lambda>i. if i + 1 < length (map (\<lambda>z. Fin (z * c)) zi)
                  then map (\<lambda>z. Fin (z * c)) zi ! (i + 1) + Fin c * Fin (b ! (i + 1))
                         - Fin (c * g) * Fin (a ! (i + 1))
                  else Fin c * Fin (b ! (i + 1)) - Fin (c * g) * Fin (a ! (i + 1)))
          [0..<length (map (\<lambda>z. Fin (z * c)) zi)])
        = length (map (\<lambda>z. Fin (z * c)) zi)"
      by simp
  next
    fix i
    assume "i < length (map (\<lambda>i. if i + 1 < length (map (\<lambda>z. Fin (z * c)) zi)
                  then map (\<lambda>z. Fin (z * c)) zi ! (i + 1) + Fin c * Fin (b ! (i + 1))
                         - Fin (c * g) * Fin (a ! (i + 1))
                  else Fin c * Fin (b ! (i + 1)) - Fin (c * g) * Fin (a ! (i + 1)))
          [0..<length (map (\<lambda>z. Fin (z * c)) zi)])"
    then have i: "i < n - 1" by (simp add: lz)
    have "map (\<lambda>i. if i + 1 < length (map (\<lambda>z. Fin (z * c)) zi)
                  then map (\<lambda>z. Fin (z * c)) zi ! (i + 1) + Fin c * Fin (b ! (i + 1))
                         - Fin (c * g) * Fin (a ! (i + 1))
                  else Fin c * Fin (b ! (i + 1)) - Fin (c * g) * Fin (a ! (i + 1)))
          [0..<length (map (\<lambda>z. Fin (z * c)) zi)] ! i = Fin (F i)"
      using i by (simp add: lz F_def)
    also have "\<dots> = Fin (Z i * c)" using i by (simp add: next_state)
    also have "\<dots> = map (\<lambda>z. Fin (z * c)) zi ! i"
      using i by (simp add: zi_eq)
    finally show "map (\<lambda>i. if i + 1 < length (map (\<lambda>z. Fin (z * c)) zi)
                  then map (\<lambda>z. Fin (z * c)) zi ! (i + 1) + Fin c * Fin (b ! (i + 1))
                         - Fin (c * g) * Fin (a ! (i + 1))
                  else Fin c * Fin (b ! (i + 1)) - Fin (c * g) * Fin (a ! (i + 1)))
          [0..<length (map (\<lambda>z. Fin (z * c)) zi)] ! i
        = map (\<lambda>z. Fin (z * c)) zi ! i" .
  qed
  then show ?thesis
    unfolding st lfilter_step_def Let_def hd_case g_def[symmetric] by simp
qed

text \<open>A NaN sample makes the output and the whole delay line NaN.\<close>

lemma lfilter_step_NaN: "lfilter_step b a z NaN = (NaN, replicate (length z) NaN)"
proof -
  have y: "(case z of [] \<Rightarrow> NaN * Fin (b ! 0) | z0 # zs \<Rightarrow> z0 + Fin (b ! 0) * NaN) = NaN"
    by (cases z) simp_all
  have "map (\<lambda>i. if i + 1 < length z
                  then z ! (i + 1) + NaN * Fin (b ! (i + 1)) - NaN * Fin (a ! (i + 1))
                  else NaN * Fin (b ! (i + 1)) - NaN * Fin (a ! (i + 1))) [0..<length z]
        = replicate (length z) NaN"
    by (rule nth_equalityI) simp_all
  then show ?thesis
    unfolding lfilter_step_def Let_def y by simp
qed

lemma lfilter_run_NaN: "lfilter_run b a z (replicate m NaN) = replicate m NaN"
  by (induction m arbitrary: z) (simp_all add: lfilter_step_NaN)

lemma lfilter_run_const:
  assumes "length a = n" "length b = n" "2 \<le> n" "a ! 0 = 1" "sum_list a \<noteq> 0"
    and "lfilter_zi b a = Inr zi"
  shows "lfilter_run b a (map (\<lambda>z. Fin z * Fin c) zi) (replicate m (Fin c))
           = replicate m (Fin (c * (sum_list b / sum_list a)))"
  by (induction m) (simp_all add: lfilter_zi_steady[OF assms] del: times_dbl.simps)

lemma lfilter_normalised:
  assumes "length a = n" "length b = n" "2 \<le> n" "a ! 0 = 1" "length z = n - 1"
  shows "lfilter b a x z = Inr (lfilter_run b a z x)"
proof -
  have ne: "a \<noteq> []" "b \<noteq> []" "a ! 0 \<noteq> 0" using assms by auto
  have d: "map (\<lambda>c. c / a ! 0) a = a" "map (\<lambda>c. c / a ! 0) b = b"
    using assms(4) by simp_all
  have m: "max (length a) (length b) = n" using assms by simp
  have p: "pad_to n a = a" "pad_to n b = b"
    using assms by (simp_all add: pad_to_def)
  show ?thesis
    unfolding lfilter_def Let_def m d p using ne assms(5) by simp
qed

lemma odd_ext_const:
  assumes "n < m" and "Fin 2 * c - c = c"
  shows "odd_ext (replicate m c) n = Inr (replicate (m + 2 * n) c)"
proof -
  from odd_ext_ok[of n "replicate m c"] assms obtain ext where
    ext: "odd_ext (replicate m c) n = Inr ext" by auto
  have len: "length ext = m + 2 * n"
    using odd_ext_length[OF ext] by simp
  have "set ext \<subseteq> {c}"
  proof (cases "n < 1")
    case True
    with ext show ?thesis by (auto simp: odd_ext_def)
  next
    case False
    from assms have m: "m \<noteq> 0" by simp
    then have h: "hd (replicate m c) = c" "last (replicate m c) = c"
      by (simp_all add: hd_replicate last_replicate)
    from ext False m
    have "ext = map (\<lambda>v. Fin 2 * c - v) (rev (take n (tl (replicate m c)))) @ replicate m c
      @ map (\<lambda>v. Fin 2 * c - v) (take n (tl (rev (replicate m c))))"
      by (simp add: odd_ext_def h split: if_splits)
    then show ?thesis
      using assms(2) by (auto dest!: in_set_takeD simp: tl_replicate)
  qed
  then have "ext = replicate (length ext) c"
    by (metis replicate_length_same singletonD subsetD)
  with len ext show ?thesis by simp
qed

text \<open>
  Zero-phase filtering of a constant buffer: both passes run in the steady state, so the
  result is the constant times the square of the gain at frequency zero. A buffer of NaN
  comes out as a buffer of NaN.
\<close>

lemma filtfilt_const:
  assumes "length a = n" "length b = n" "2 \<le> n" "a ! 0 = 1" "sum_list a \<noteq> 0"
    and "3 * n < m"
  shows "filtfilt b a (replicate m (Fin c))
           = Inr (replicate m (Fin (c * (sum_list b / sum_list a) * (sum_list b / sum_list a))))"
proof -
  define g where "g = sum_list b / sum_list a"
  define edge where "edge = 3 * max (length a) (length b)"
  have edge: "edge = 3 * n" using assms(1,2) by (simp add: edge_def)
  have long: "\<not> length (replicate m (Fin c)) \<le> edge" "edge < m" "0 < edge"
    using assms(3,6) by (simp_all add: edge)
  obtain zi where zi: "lfilter_zi b a = Inr zi" and lz: "length zi = n - 1"
    using lfilter_zi_ok[of a b] assms(1-5) by auto
  have ext: "odd_ext (replicate m (Fin c)) edge = Inr (replicate (m + 2 * edge) (Fin c))"
    using long(2) by (rule odd_ext_const) simp
  have pos: "0 < m + 2 * edge" using long by simp
  then have hd: "hd (replicate (m + 2 * edge) (Fin c)) = Fin c"
    and last: "last (replicate (m + 2 * edge) (Fin (c * g))) = Fin (c * g)"
    by (simp_all add: hd_replicate last_replicate)
  have y1: "lfilter b a (replicate (m + 2 * edge) (Fin c)) (map (\<lambda>v. Fin v * Fin c) zi)
              = Inr (replicate (m + 2 * edge) (Fin (c * g)))"
    unfolding g_def
    using lfilter_normalised[OF assms(1-4), of "map (\<lambda>v. Fin v * Fin c) zi"] lz
      lfilter_run_const[OF assms(1-5) zi] by simp
  have y2: "lfilter b a (replicate (m + 2 * edge) (Fin (c * g)))
                (map (\<lambda>v. Fin v * Fin (c * g)) zi)
              = Inr (replicate (m + 2 * edge) (Fin (c * g * g)))"
    using lfilter_normalised[OF assms(1-4), of "map (\<lambda>v. Fin v * Fin (c * g)) zi"] lz
      lfilter_run_const[OF assms(1-5) zi, of "c * g"]
    by (simp add: g_def)
  have "filtfilt b a (replicate m (Fin c)) = Inr (replicate m (Fin (c * g * g)))"
    unfolding filtfilt_def Let_def edge_def[symmetric] ext zi hd
    using long by (simp add: y1 last y2 min_def del: times_dbl.simps)
  then show ?thesis by (simp add: g_def)
qed

lemma filtfilt_NaN:
  assumes "length a = n" "length b = n" "2 \<le> n" "a ! 0 = 1" "sum_list a \<noteq> 0"
    and "3 * n < m"
  shows "filtfilt b a (replicate m NaN) = Inr (replicate m NaN)"
proof -
  define edge where "edge = 3 * max (length a) (length b)"
  have edge: "edge = 3 * n" using assms(1,2) by (simp add: edge_def)
  have long: "\<not> length (replicate m NaN) \<le> edge" "edge < m" "0 < edge"
    using assms(3,6) by (simp_all add: edge)
  obtain zi where zi: "lfilter_zi b a = Inr zi" and lz: "length zi = n - 1"
    using lfilter_zi_ok[of a b] assms(1-5) by auto
  have ext: "odd_ext (replicate m NaN) edge = Inr (replicate (m + 2 * edge) NaN)"
    using long(2) by (rule odd_ext_const) simp
  have run: "lfilter b a (replicate (m + 2 * edge) NaN) (map f zi)
               = Inr (replicate (m + 2 * edge) NaN)" for f
    using lfilter_normalised[OF assms(1-4), of "map f zi"] lz
    by (simp add: lfilter_run_NaN)
  show ?thesis
    unfolding filtfilt_def Let_def edge_def[symmetric] ext zi
    using long by (simp add: run min_def)
qed

subsection \<open>The mixed buffer\<close>

lemma gain_in_range: "gain \<le> 6000 \<Longrightarrow> \<not> overflows (db_to_linear gain)"
  using gain_factor_ok[of gain] by (simp add: gain_factor_def split: if_splits)


lemma scale_band_length: "length (scale_band band g) = length band"
  by (simp add: scale_band_def)

lemma add_bands_length: "length (add_bands xs ys) = min (length xs) (length ys)"
  by (simp add: add_bands_def)

text \<open>
  At a sample rate above 8000 Hz the three designs succeed, and \<open>mix_bands\<close> runs through
  its calls in the order of the source: the low band is filtered (more than 15 samples
  needed), its gain factor computed, the middle band filtered (more than 27 samples
  needed), and so on. The first call that fails decides the exception.
\<close>

lemma mix_bands_cases:
  assumes "8000 < sr" "\<not> overflows (real_of_int sr / 2)"
  shows "\<exists>mixed. length mixed = length audio
           \<and> mix_bands audio sr gl gm gh =
               (if length audio \<le> 15 then Inl ValueError
                else if overflows (db_to_linear gl) then Inl OverflowError
                else if length audio \<le> 27 then Inl ValueError
                else if overflows (db_to_linear gm) then Inl OverflowError
                else if overflows (db_to_linear gh) then Inl OverflowError
                else Inr mixed)"
proof -
  from design_filters_ok[OF assms]
  obtain b_low a_low b_mid a_mid b_high a_high where
    d: "design_filters sr = Inr ((b_low, a_low), (b_mid, a_mid), (b_high, a_high))" and
    l: "length b_low = 5" "length a_low = 5" "a_low ! 0 = 1" "sum_list a_low \<noteq> 0" and
    m: "length b_mid = 9" "length a_mid = 9" "a_mid ! 0 = 1" "sum_list a_mid \<noteq> 0" and
    h: "length b_high = 5" "length a_high = 5" "a_high ! 0 = 1" "sum_list a_high \<noteq> 0"
    by blast
  show ?thesis
  proof (cases "length audio \<le> 15")
    case True
    then have "filtfilt b_low a_low audio = Inl ValueError"
      using l by (intro filtfilt_short) simp
    with True have "mix_bands audio sr gl gm gh = Inl ValueError"
      by (simp add: mix_bands_def d)
    with True show ?thesis by auto
  next
    case long: False
    then obtain low where low: "filtfilt b_low a_low audio = Inr low"
      using filtfilt_ok[OF _ _ l(3,4), of b_low audio] l(1,2) by auto
    show ?thesis
    proof (cases "overflows (db_to_linear gl)")
      case True
      then have "mix_bands audio sr gl gm gh = Inl OverflowError"
        by (simp add: mix_bands_def d low gain_factor_def)
      with long True show ?thesis by auto
    next
      case gl: False
      show ?thesis
      proof (cases "length audio \<le> 27")
        case True
        then have "filtfilt b_mid a_mid audio = Inl ValueError"
          using m by (intro filtfilt_short) simp
        with gl have "mix_bands audio sr gl gm gh = Inl ValueError"
          by (simp add: mix_bands_def d low gain_factor_def)
        with long gl True show ?thesis by auto
      next
        case longer: False
        then obtain mid where mid: "filtfilt b_mid a_mid audio = Inr mid"
          using filtfilt_ok[OF _ _ m(3,4), of b_mid audio] m(1,2) by auto
        from longer obtain high where high: "filtfilt b_high a_high audio = Inr high"
          using filtfilt_ok[OF _ _ h(3,4), of b_high audio] h(1,2) by auto
        define mixed where "mixed = add_bands
          (add_bands (scale_band low gl) (scale_band mid gm)) (scale_band high gh)"
        have len: "length mixed = length audio"
          using filtfilt_length[OF low] filtfilt_length[OF mid] filtfilt_length[OF high]
          by (simp add: mixed_def add_bands_length scale_band_length)
        have "mix_bands audio sr gl gm gh =
                (if overflows (db_to_linear gm) then Inl OverflowError
                 else if overflows (db_to_linear gh) then Inl OverflowError
                 else Inr mixed)"
          using gl by (simp add: mix_bands_def d low mid high gain_factor_def mixed_def)
        with long gl longer len show ?thesis by auto
      qed
    qed
  qed
qed

lemma mix_bands_design_fail:
  assumes "sr \<le> 8000 \<or> overflows (real_of_int sr / 2)"
  shows "mix_bands audio sr gl gm gh
           = Inl (if overflows (real_of_int sr / 2) then OverflowError
                  else if sr = 0 then ZeroDivisionError else ValueError)"
proof (cases "overflows (real_of_int sr / 2)")
  case True
  then show ?thesis by (simp add: mix_bands_def design_filters_def)
next
  case False
  with assms have "sr \<le> 8000" by simp
  from design_filters_fail[OF this] show ?thesis by (simp add: mix_bands_def)
qed

lemma mix_bands_long:
  assumes "mix_bands audio sr gl gm gh = Inr mixed"
  shows "27 < length audio" and "length mixed = length audio"
    and "8000 < sr" and "\<not> overflows (real_of_int sr / 2)"
proof -
  have ok: "\<not> (sr \<le> 8000 \<or> overflows (real_of_int sr / 2))"
  proof
    assume "sr \<le> 8000 \<or> overflows (real_of_int sr / 2)"
    from mix_bands_design_fail[OF this, of audio gl gm gh] assms show False by simp
  qed
  then show sr: "8000 < sr" "\<not> overflows (real_of_int sr / 2)" by simp_all
  from mix_bands_cases[OF sr, of audio gl gm gh] obtain mixed' where
    m: "length mixed' = length audio"
       "mix_bands audio sr gl gm gh =
               (if length audio \<le> 15 then Inl ValueError
                else if overflows (db_to_linear gl) then Inl OverflowError
                else if length audio \<le> 27 then Inl ValueError
                else if overflows (db_to_linear gm) then Inl OverflowError
                else if overflows (db_to_linear gh) then Inl OverflowError
                else Inr mixed')"
    by blast
  from m(2) assms show "27 < length audio"
    by (simp split: if_splits)
  from m(2) assms have "mixed = mixed'"
    by (simp split: if_splits)
  with m(1) show "length mixed = length audio" by simp
qed

lemma mix_bands_nonempty: "mix_bands audio sr gl gm gh = Inr mixed \<Longrightarrow> mixed \<noteq> []"
  using mix_bands_long(1,2)[of audio sr gl gm gh mixed] by auto

lemma mix_bands_error:
  assumes "mix_bands audio sr gl gm gh = Inl e"
  shows "e = ValueError \<or> e = ZeroDivisionError \<or> e = OverflowError"
proof (cases "sr \<le> 8000 \<or> overflows (real_of_int sr / 2)")
  case True
  from mix_bands_design_fail[OF this, of audio gl gm gh] assms show ?thesis
    by (simp split: if_splits)
next
  case False
  then have "8000 < sr" "\<not> overflows (real_of_int sr / 2)" by simp_all
  from mix_bands_cases[OF this, of audio gl gm gh] assms show ?thesis
    by (auto split: if_splits)
qed

subsection \<open>When apply\_eq returns\<close>

lemma apply_eq_returns:
  assumes "mix_bands audio sr gl gm gh = Inr mixed"
  shows "\<exists>out. apply_eq audio sr gl gm gh = Inr out"
  using normalize_peak_ok[OF mix_bands_nonempty[OF assms]]
  by (simp add: apply_eq_def assms)

lemma apply_eq_raises:
  "apply_eq audio sr gl gm gh = Inl e \<longleftrightarrow> mix_bands audio sr gl gm gh = Inl e"
proof (cases "mix_bands audio sr gl gm gh")
  case (Inl e')
  then show ?thesis by (simp add: apply_eq_def)
next
  case (Inr mixed)
  from apply_eq_returns[OF this] Inr show ?thesis by auto
qed

lemma apply_eq_length:
  assumes "apply_eq audio sr gl gm gh = Inr out"
  shows "length out = length audio"
proof -
  from assms obtain mixed where
    mx: "mix_bands audio sr gl gm gh = Inr mixed" and
    out: "normalize_peak mixed = Inr out"
    by (auto simp: apply_eq_def split: sum.splits)
  from normalize_peak_length[OF out] mix_bands_long(2)[OF mx] show ?thesis by simp
qed

subsection \<open>apply\_eq on a constant buffer\<close>

text \<open>
  A constant buffer passes the low band unchanged and is removed from the other two, so the
  mix is the constant times the low gain. This gives inputs on which the normalisation
  divides. A buffer of NaN is mixed to a buffer of NaN.
\<close>

lemma design_filters_dc:
  assumes "8000 < sr"
    and "design_filters sr = Inr ((b_low, a_low), (b_mid, a_mid), (b_high, a_high))"
  shows "sum_list b_low = sum_list a_low" and "sum_list b_mid = 0" and "sum_list b_high = 0"
proof -
  define nyquist where "nyquist = real_of_int sr / 2"
  from assms(1) have "8001 \<le> sr" by simp
  then have "8001 \<le> real_of_int sr" by linarith
  then have ny: "4000 < nyquist" "nyquist \<noteq> 0" "0 < nyquist"
    by (simp_all add: nyquist_def)
  have low: "0 < min 250 (nyquist - 1) / nyquist" "min 250 (nyquist - 1) / nyquist < 1"
    using ny by (simp_all add: min_def)
  have mid: "0 < max 250 1 / nyquist"
    "max 250 1 / nyquist < min 4000 (nyquist - 1) / nyquist"
    "min 4000 (nyquist - 1) / nyquist < 1"
    using ny by (simp_all add: min_def divide_strict_right_mono)
  have high: "0 < max 4000 1 / nyquist" "max 4000 1 / nyquist < 1"
    using ny by simp_all
  from assms(2) have
    l: "butter 4 (Scalar (min 250 (nyquist - 1) / nyquist)) Lowpass = Inr (b_low, a_low)" and
    m: "butter 4 (Pair (max 250 1 / nyquist) (min 4000 (nyquist - 1) / nyquist)) Bandpass
          = Inr (b_mid, a_mid)" and
    h: "butter 4 (Scalar (max 4000 1 / nyquist)) Highpass = Inr (b_high, a_high)"
    unfolding design_filters_def Let_def nyquist_def[symmetric]
    by (auto split: if_splits sum.splits)
  show "sum_list b_low = sum_list a_low" using low l by (rule butter_lowpass_dc)
  show "sum_list b_mid = 0" using mid m by (rule butter_bandpass_dc)
  show "sum_list b_high = 0" using high h by (rule butter_highpass_dc)
qed

lemma mix_bands_const:
  assumes "8000 < sr" "\<not> overflows (real_of_int sr / 2)" "27 < n"
    and "\<not> overflows (db_to_linear gl)" "\<not> overflows (db_to_linear gm)"
        "\<not> overflows (db_to_linear gh)"
  shows "mix_bands (replicate n (Fin c)) sr gl gm gh
           = Inr (replicate n (Fin (c * db_to_linear gl)))"
proof -
  from design_filters_ok[OF assms(1,2)]
  obtain b_low a_low b_mid a_mid b_high a_high where
    d: "design_filters sr = Inr ((b_low, a_low), (b_mid, a_mid), (b_high, a_high))" and
    l: "length a_low = 5" "length b_low = 5" "a_low ! 0 = 1" "sum_list a_low \<noteq> 0" and
    m: "length a_mid = 9" "length b_mid = 9" "a_mid ! 0 = 1" "sum_list a_mid \<noteq> 0" and
    h: "length a_high = 5" "length b_high = 5" "a_high ! 0 = 1" "sum_list a_high \<noteq> 0"
    by blast
  note dc = design_filters_dc[OF assms(1) d]
  have "filtfilt b_low a_low (replicate n (Fin c)) = Inr (replicate n (Fin c))"
    using filtfilt_const[OF l(1,2) _ l(3,4), of n c] assms(3) l(4) by (simp add: dc(1))
  moreover have "filtfilt b_mid a_mid (replicate n (Fin c)) = Inr (replicate n (Fin 0))"
    using filtfilt_const[OF m(1,2) _ m(3,4), of n c] assms(3) by (simp add: dc(2))
  moreover have "filtfilt b_high a_high (replicate n (Fin c)) = Inr (replicate n (Fin 0))"
    using filtfilt_const[OF h(1,2) _ h(3,4), of n c] assms(3) by (simp add: dc(3))
  ultimately show ?thesis
    using assms(4-6)
    by (simp add: mix_bands_def d gain_factor_def scale_band_def add_bands_def zip_replicate)
qed

lemma mix_bands_NaN:
  assumes "8000 < sr" "\<not> overflows (real_of_int sr / 2)" "27 < n"
    and "\<not> overflows (db_to_linear gl)" "\<not> overflows (db_to_linear gm)"
        "\<not> overflows (db_to_linear gh)"
  shows "mix_bands (replicate n NaN) sr gl gm gh = Inr (replicate n NaN)"
proof -
  from design_filters_ok[OF assms(1,2)]
  obtain b_low a_low b_mid a_mid b_high a_high where
    d: "design_filters sr = Inr ((b_low, a_low), (b_mid, a_mid), (b_high, a_high))" and
    l: "length a_low = 5" "length b_low = 5" "a_low ! 0 = 1" "sum_list a_low \<noteq> 0" and
    m: "length a_mid = 9" "length b_mid = 9" "a_mid ! 0 = 1" "sum_list a_mid \<noteq> 0" and
    h: "length a_high = 5" "length b_high = 5" "a_high ! 0 = 1" "sum_list a_high \<noteq> 0"
    by blast
  have "filtfilt b_low a_low (replicate n NaN) = Inr (replicate n NaN)"
    using filtfilt_NaN[OF l(1,2) _ l(3,4), of n] assms(3) by simp
  moreover have "filtfilt b_mid a_mid (replicate n NaN) = Inr (replicate n NaN)"
    using filtfilt_NaN[OF m(1,2) _ m(3,4), of n] assms(3) by simp
  moreover have "filtfilt b_high a_high (replicate n NaN) = Inr (replicate n NaN)"
    using filtfilt_NaN[OF h(1,2) _ h(3,4), of n] assms(3) by simp
  ultimately show ?thesis
    using assms(4-6)
    by (simp add: mix_bands_def d gain_factor_def scale_band_def add_bands_def zip_replicate)
qed

lemma normalize_peak_const:
  assumes "0 < n"
  shows "normalize_peak (replicate n (Fin v))
           = Inr (if 1 < \<bar>v\<bar> then replicate n (Fin (v / \<bar>v\<bar>)) else replicate n (Fin v))"
proof -
  have "replicate n v \<noteq> []" and "abs ` set (replicate n v) = {\<bar>v\<bar>}"
    using assms by auto
  with normalize_peak_finite[of "replicate n v"] show ?thesis by simp
qed

lemma apply_eq_const:
  assumes "8000 < sr" "sr \<le> 192000" "27 < n" "0 < c" "1 < c * db_to_linear gl"
    and "gl \<le> 6000" "gm \<le> 6000" "gh \<le> 6000"
  shows "apply_eq (replicate n (Fin c)) sr gl gm gh = Inr (replicate n (Fin 1))"
proof -
  define v where "v = c * db_to_linear gl"
  have n: "0 < n" using assms(3) by simp
  have sr: "\<not> overflows (real_of_int sr / 2)"
    using assms(1,2) by (intro sample_rate_no_overflow) simp_all
  have "1 < v" using assms(5) by (simp add: v_def)
  then have v: "1 < \<bar>v\<bar>" "v / \<bar>v\<bar> = 1"
    by simp_all
  have "mix_bands (replicate n (Fin c)) sr gl gm gh = Inr (replicate n (Fin v))"
    unfolding v_def using assms(1) sr assms(3)
    by (rule mix_bands_const) (simp_all add: gain_in_range assms(6-8))
  then have "apply_eq (replicate n (Fin c)) sr gl gm gh = normalize_peak (replicate n (Fin v))"
    by (simp add: apply_eq_def)
  also have "\<dots> = Inr (replicate n (Fin 1))"
    unfolding normalize_peak_const[OF n] using v by simp
  finally show ?thesis .
qed


lemma apply_eq_NaN:
  assumes "8000 < sr" "sr \<le> 192000" "27 < n"
    and "gl \<le> 6000" "gm \<le> 6000" "gh \<le> 6000"
  shows "apply_eq (replicate n NaN) sr gl gm gh = Inr (replicate n NaN)"
proof -
  have n: "NaN \<in> set (replicate n NaN)" using assms(3) by simp
  have sr: "\<not> overflows (real_of_int sr / 2)"
    using assms(1,2) by (intro sample_rate_no_overflow) simp_all
  have "mix_bands (replicate n NaN) sr gl gm gh = Inr (replicate n NaN)"
    using assms(1) sr assms(3)
    by (rule mix_bands_NaN) (simp_all add: gain_in_range assms(4-6))
  then show ?thesis
    by (simp add: apply_eq_def normalize_peak_NaN[OF n])
qed

subsection \<open>The store only grows\<close>

lemma filtfilt_ref_ok:
  assumes "filtfilt b a (h ! x) = Inr y"
  shows "filtfilt_ref b a x h = (Inr (length h), h @ [y])"
  by (simp add: filtfilt_ref_def assms np_new_def)

lemma filtfilt_ref_fail:
  assumes "filtfilt b a (h ! x) = Inl e"
  shows "filtfilt_ref b a x h = (Inl e, h)"
  by (simp add: filtfilt_ref_def assms)

lemma apply_eq_store_fail_design:
  assumes "design_filters sr = Inl e"
  shows "apply_eq_store audio sr gl gm gh h = (Inl e, h)"
    and "apply_eq (h ! audio) sr gl gm gh = Inl e"
  by (simp_all add: apply_eq_store_def apply_eq_def mix_bands_def assms)

text \<open>
  The run on the store agrees with the function on values, and the store it leaves is the
  old store followed by the arrays allocated on the way.
\<close>

lemma apply_eq_store_run:
  assumes "audio < length h"
  shows "\<exists>fresh. snd (apply_eq_store audio sr gl gm gh h) = h @ fresh
           \<and> (case fst (apply_eq_store audio sr gl gm gh h) of
                 Inl e \<Rightarrow> apply_eq (h ! audio) sr gl gm gh = Inl e
               | Inr out \<Rightarrow> length h \<le> out \<and> out < length (h @ fresh)
                   \<and> apply_eq (h ! audio) sr gl gm gh = Inr ((h @ fresh) ! out))"
proof (cases "design_filters sr")
  case (Inl e)
  then show ?thesis by (simp add: apply_eq_store_fail_design)
next
  case (Inr d)
  obtain b_low a_low b_mid a_mid b_high a_high where
    d: "design_filters sr = Inr ((b_low, a_low), (b_mid, a_mid), (b_high, a_high))"
    using Inr by (cases d) auto
  have at: "(h @ xs) ! audio = h ! audio" for xs
    using assms by (simp add: nth_append)
  show ?thesis
  proof (cases "filtfilt b_low a_low (h ! audio)")
    case (Inl e)
    then show ?thesis
      by (simp add: apply_eq_store_def apply_eq_def mix_bands_def d filtfilt_ref_fail)
  next
    case low: (Inr low)
    show ?thesis
    proof (cases "gain_factor gl")
      case (Inl e)
      then have "apply_eq_store audio sr gl gm gh h = (Inl e, h @ [low])"
        by (simp add: apply_eq_store_def d low filtfilt_ref_ok)
      then show ?thesis
        by (simp add: apply_eq_def mix_bands_def d low Inl)
    next
      case kl: (Inr low_factor)
      define h2 where "h2 = h @ [low, scale_band low gl]"
      have s2: "scale_ref (length h) gl (h @ [low]) = (Suc (length h), h2)"
        by (simp add: scale_ref_def np_new_def h2_def)
      have a2: "h2 ! audio = h ! audio" unfolding h2_def by (rule at)
      have l2: "length h2 = length h + 2" by (simp add: h2_def)
      show ?thesis
      proof (cases "filtfilt b_mid a_mid (h ! audio)")
        case (Inl e)
        then have "filtfilt_ref b_mid a_mid audio h2 = (Inl e, h2)"
          using filtfilt_ref_fail[of b_mid a_mid h2 audio e] a2 by simp
        then have "apply_eq_store audio sr gl gm gh h = (Inl e, h2)"
          by (simp add: apply_eq_store_def d low kl filtfilt_ref_ok s2)
        then show ?thesis
          by (simp add: apply_eq_def mix_bands_def d low kl Inl h2_def)
      next
        case mid: (Inr mid)
        have f3: "filtfilt_ref b_mid a_mid audio h2 = (Inr (Suc (Suc (length h))), h2 @ [mid])"
          using filtfilt_ref_ok[of b_mid a_mid h2 audio mid] mid a2 l2 by simp
        show ?thesis
        proof (cases "gain_factor gm")
          case (Inl e)
          then have "apply_eq_store audio sr gl gm gh h = (Inl e, h2 @ [mid])"
            by (simp add: apply_eq_store_def d low kl filtfilt_ref_ok s2 f3)
          then show ?thesis
            by (simp add: apply_eq_def mix_bands_def d low kl mid Inl h2_def)
        next
          case km: (Inr mid_factor)
          define h4 where "h4 = h2 @ [mid, scale_band mid gm]"
          have s4: "scale_ref (Suc (Suc (length h))) gm (h2 @ [mid]) = (length h + 3, h4)"
            by (simp add: scale_ref_def np_new_def h4_def l2 nth_append)
          have a4: "h4 ! audio = h ! audio"
            unfolding h4_def h2_def append_assoc by (rule at)
          have l4: "length h4 = length h + 4" by (simp add: h4_def l2)
          show ?thesis
          proof (cases "filtfilt b_high a_high (h ! audio)")
            case (Inl e)
            then have "filtfilt_ref b_high a_high audio h4 = (Inl e, h4)"
              using filtfilt_ref_fail[of b_high a_high h4 audio e] a4 by simp
            then have "apply_eq_store audio sr gl gm gh h = (Inl e, h4)"
              by (simp add: apply_eq_store_def d low kl km filtfilt_ref_ok s2 f3 s4)
            then show ?thesis
              by (simp add: apply_eq_def mix_bands_def d low kl mid km Inl h4_def h2_def)
          next
            case high: (Inr high)
            have f5: "filtfilt_ref b_high a_high audio h4 = (Inr (length h + 4), h4 @ [high])"
              using filtfilt_ref_ok[of b_high a_high h4 audio high] high a4 l4 by simp
            show ?thesis
            proof (cases "gain_factor gh")
              case (Inl e)
              then have "apply_eq_store audio sr gl gm gh h = (Inl e, h4 @ [high])"
                by (simp add: apply_eq_store_def d low kl km filtfilt_ref_ok s2 f3 s4 f5)
              then show ?thesis
                by (simp add: apply_eq_def mix_bands_def d low kl mid km high Inl
                    h4_def h2_def)
            next
              case kh: (Inr high_factor)
              define mixed where "mixed = add_bands
                (add_bands (scale_band low gl) (scale_band mid gm)) (scale_band high gh)"
              define h9 where "h9 = h4 @ [high, scale_band high gh,
                add_bands (scale_band low gl) (scale_band mid gm), mixed, map abs mixed]"
              have s6: "scale_ref (length h + 4) gh (h4 @ [high])
                          = (length h + 5, h4 @ [high, scale_band high gh])"
                by (simp add: scale_ref_def np_new_def l4 nth_append)
              have h6: "(h4 @ [high, scale_band high gh]) ! Suc (length h) = scale_band low gl"
                "(h4 @ [high, scale_band high gh]) ! (length h + 3) = scale_band mid gm"
                by (simp_all add: h4_def h2_def nth_append)
              have s7: "add_ref (Suc (length h)) (length h + 3)
                          (h4 @ [high, scale_band high gh])
                          = (length h + 6, h4 @ [high, scale_band high gh,
                               add_bands (scale_band low gl) (scale_band mid gm)])"
                by (simp add: add_ref_def np_new_def h6 l4)
              have s8: "add_ref (length h + 6) (length h + 5)
                          (h4 @ [high, scale_band high gh,
                               add_bands (scale_band low gl) (scale_band mid gm)])
                          = (length h + 7, h4 @ [high, scale_band high gh,
                               add_bands (scale_band low gl) (scale_band mid gm), mixed])"
                by (simp add: add_ref_def np_new_def l4 nth_append mixed_def)
              have s9: "abs_ref (length h + 7) (h4 @ [high, scale_band high gh,
                               add_bands (scale_band low gl) (scale_band mid gm), mixed])
                          = (length h + 8, h9)"
                by (simp add: abs_ref_def np_new_def l4 nth_append h9_def)
              have m9: "h9 ! (length h + 8) = map abs mixed" "h9 ! (length h + 7) = mixed"
                by (simp_all add: h9_def l4 nth_append)
              have l9: "length h9 = length h + 9" by (simp add: h9_def l4)
              have mx: "mix_bands (h ! audio) sr gl gm gh = Inr mixed"
                by (simp add: mix_bands_def d low kl mid km high kh mixed_def)
              have run: "apply_eq_store audio sr gl gm gh h
                  = (case np_max (map abs mixed) of
                       Inl e \<Rightarrow> (Inl e, h9)
                     | Inr max_val \<Rightarrow>
                         (if greater max_val (Fin 1)
                          then (Inr (length h + 9), h9 @ [map (\<lambda>v. v / max_val) mixed])
                          else (Inr (length h + 7), h9)))"
                by (simp add: apply_eq_store_def d low kl km kh filtfilt_ref_ok
                    s2 f3 s4 f5 s6 s7 s8 s9 m9 divide_ref_def np_new_def l9 split: sum.split)
              define fresh where "fresh = [low, scale_band low gl, mid, scale_band mid gm,
                  high, scale_band high gh, add_bands (scale_band low gl) (scale_band mid gm),
                  mixed, map abs mixed]"
              have pre: "h9 = h @ fresh"
                by (simp add: h9_def h4_def h2_def fresh_def)
              have lf: "length fresh = 9" by (simp add: fresh_def)
              have at7: "(h @ fresh) ! (length h + 7) = mixed"
                using m9(2) by (simp add: pre)
              show ?thesis
              proof (cases "np_max (map abs mixed)")
                case (Inl e)
                then show ?thesis
                  unfolding run pre by (simp add: apply_eq_def mx normalize_peak_def)
              next
                case (Inr max_val)
                show ?thesis
                proof (cases "greater max_val (Fin 1)")
                  case True
                  have "(h @ fresh @ [map (\<lambda>v. v / max_val) mixed]) ! (length h + 9)
                          = map (\<lambda>v. v / max_val) mixed"
                    using lf by (simp add: nth_append)
                  then show ?thesis
                    unfolding run pre using Inr True lf
                    by (intro exI[of _ "fresh @ [map (\<lambda>v. v / max_val) mixed]"])
                       (simp add: apply_eq_def mx normalize_peak_def)
                next
                  case False
                  show ?thesis
                    unfolding run pre using Inr False lf at7
                    by (intro exI[of _ fresh]) (simp add: apply_eq_def mx normalize_peak_def)
                qed
              qed
            qed
          qed
        qed
      qed
    qed
  qed
qed

subsection \<open>The outcome of apply\_eq at audio sample rates\<close>


lemma apply_eq_cases:
  assumes "8000 < sr" "sr \<le> 192000"
  shows "\<exists>out. length out = length audio
           \<and> apply_eq audio sr gl gm gh =
               (if length audio \<le> 15 then Inl ValueError
                else if overflows (db_to_linear gl) then Inl OverflowError
                else if length audio \<le> 27 then Inl ValueError
                else if overflows (db_to_linear gm) then Inl OverflowError
                else if overflows (db_to_linear gh) then Inl OverflowError
                else Inr out)"
proof -
  have sr: "\<not> overflows (real_of_int sr / 2)"
    using assms by (intro sample_rate_no_overflow) simp_all
  from mix_bands_cases[OF assms(1) sr, of audio gl gm gh] obtain mixed where
    m: "mix_bands audio sr gl gm gh =
               (if length audio \<le> 15 then Inl ValueError
                else if overflows (db_to_linear gl) then Inl OverflowError
                else if length audio \<le> 27 then Inl ValueError
                else if overflows (db_to_linear gm) then Inl OverflowError
                else if overflows (db_to_linear gh) then Inl OverflowError
                else Inr mixed)"
    by blast
  show ?thesis
  proof (cases "mix_bands audio sr gl gm gh")
    case (Inl e)
    then have "apply_eq audio sr gl gm gh = Inl e" by (simp add: apply_eq_raises)
    with Inl m have "apply_eq audio sr gl gm gh =
               (if length audio \<le> 15 then Inl ValueError
                else if overflows (db_to_linear gl) then Inl OverflowError
                else if length audio \<le> 27 then Inl ValueError
                else if overflows (db_to_linear gm) then Inl OverflowError
                else if overflows (db_to_linear gh) then Inl OverflowError
                else Inr audio)"
      by (simp split: if_splits)
    then show ?thesis by blast
  next
    case (Inr mixed')
    from apply_eq_returns[OF this] obtain out where
      out: "apply_eq audio sr gl gm gh = Inr out" by blast
    from Inr m have "apply_eq audio sr gl gm gh =
               (if length audio \<le> 15 then Inl ValueError
                else if overflows (db_to_linear gl) then Inl OverflowError
                else if length audio \<le> 27 then Inl ValueError
                else if overflows (db_to_linear gm) then Inl OverflowError
                else if overflows (db_to_linear gh) then Inl OverflowError
                else Inr out)"
      by (simp add: out split: if_splits)
    with apply_eq_length[OF out] show ?thesis by blast
  qed
qed

lemma mix_bands_constant:
  assumes "8000 < sr" "sr \<le> 192000" "27 < n" "gl \<le> 6000" "gm \<le> 6000" "gh \<le> 6000"
  shows "mix_bands (replicate n (Fin c)) sr gl gm gh
           = Inr (replicate n (Fin (c * db_to_linear gl)))"
proof -
  have sr: "\<not> overflows (real_of_int sr / 2)"
    using assms(1,2) by (intro sample_rate_no_overflow) simp_all
  from assms(1) sr assms(3) show ?thesis
    by (rule mix_bands_const) (simp_all add: gain_in_range assms(4-6))
qed

lemma mix_bands_all_NaN:
  assumes "8000 < sr" "sr \<le> 192000" "27 < n" "gl \<le> 6000" "gm \<le> 6000" "gh \<le> 6000"
  shows "mix_bands (replicate n NaN) sr gl gm gh = Inr (replicate n NaN)"
proof -
  have sr: "\<not> overflows (real_of_int sr / 2)"
    using assms(1,2) by (intro sample_rate_no_overflow) simp_all
  from assms(1) sr assms(3) show ?thesis
    by (rule mix_bands_NaN) (simp_all add: gain_in_range assms(4-6))
qed

section \<open>The claims\<close>

text \<open>
  C1. Whenever \<open>apply_eq\<close> returns a buffer, the buffer has exactly as many samples as the
  input: zero-phase filtering, the gains, the sum of the bands and the normalisation all
  preserve the length.
\<close>

theorem apply_eq_preserves_length:
  assumes "apply_eq audio sr low_gain mid_gain high_gain = Inr out"
  shows "length out = length audio"
proof -
  from assms obtain mixed where
    mx: "mix_bands audio sr low_gain mid_gain high_gain = Inr mixed" and
    out: "normalize_peak mixed = Inr out"
    by (auto simp: apply_eq_def split: sum.splits)
  from normalize_peak_length[OF out] mix_bands_long(2)[OF mx] show ?thesis by simp
qed

theorem apply_eq_preserves_length_witness:
  "apply_eq (replicate 28 (Fin 2)) 44100 0 6 (- 6) = Inr (replicate 28 (Fin 1))
   \<and> length (replicate 28 (Fin 1)) = length (replicate 28 (Fin 2))"
proof -
  have h: "apply_eq (replicate 28 (Fin 2)) 44100 0 6 (- 6) = Inr (replicate 28 (Fin 1))"
    by (rule apply_eq_const) (simp_all add: db_to_linear_0)
  from apply_eq_preserves_length[OF h] h show ?thesis by simp
qed

text \<open>
  C2 does not hold as stated: on a buffer of 28 NaN samples at 44100 Hz \<open>apply_eq\<close>
  succeeds and returns 28 NaN samples. The maximum absolute value of the output is NaN,
  which is no number at most 1: the comparison \<^verbatim>\<open>max_val > 1.0\<close> on line 162 is False
  for NaN and the buffer is returned as it is.
\<close>

theorem peak_bound_counterexample:
  "apply_eq (replicate 28 NaN) 44100 0 0 0 = Inr (replicate 28 NaN)
   \<and> np_max (map abs (replicate 28 NaN)) = Inr NaN
   \<and> \<not> (\<exists>r. NaN = Fin r \<and> \<bar>r\<bar> \<le> 1)"
proof -
  have "apply_eq (replicate 28 NaN) 44100 0 0 0 = Inr (replicate 28 NaN)"
    by (rule apply_eq_NaN) simp_all
  moreover have "np_max (map abs (replicate 28 NaN)) = Inr NaN"
    by (rule np_max_NaN) simp
  ultimately show ?thesis by simp
qed

text \<open>
  C2, as the code has it. The normalisation step returns a buffer \<open>out\<close> for every
  non-empty buffer \<open>p\<close>, of the same length, and: when every sample of \<open>p\<close> is finite,
  every sample of \<open>out\<close> is finite and its absolute value is at most 1; when \<open>p\<close> holds a
  NaN, \<open>out\<close> is \<open>p\<close> itself, not normalised; and whenever \<open>p\<close> holds a sample that is not
  finite, \<open>out\<close> holds a NaN (an infinite peak divides the infinite samples to NaN). A
  successful mix \<open>mixed\<close>, the buffer \<^verbatim>\<open>processed\<close> of line 159, is never empty, and
  \<open>apply_eq\<close> returns its normalisation, so all this holds of \<open>mixed\<close> and the output of
  \<open>apply_eq\<close>.
\<close>

theorem apply_eq_peak_bound:
  "(p \<noteq> [] \<longrightarrow>
      (\<exists>out. normalize_peak p = Inr out \<and> length out = length p
         \<and> ((\<forall>v\<in>set p. is_fin v) \<longrightarrow> (\<forall>v\<in>set out. \<exists>r. v = Fin r \<and> \<bar>r\<bar> \<le> 1))
         \<and> (NaN \<in> set p \<longrightarrow> out = p)
         \<and> ((\<exists>v\<in>set p. \<not> is_fin v) \<longrightarrow> NaN \<in> set out)))
   \<and> (mix_bands audio sr low_gain mid_gain high_gain = Inr mixed \<longrightarrow>
        (\<exists>out. apply_eq audio sr low_gain mid_gain high_gain = Inr out
           \<and> normalize_peak mixed = Inr out \<and> out \<noteq> []
           \<and> ((\<forall>v\<in>set mixed. is_fin v) \<longrightarrow> (\<forall>v\<in>set out. \<exists>r. v = Fin r \<and> \<bar>r\<bar> \<le> 1))
           \<and> (NaN \<in> set mixed \<longrightarrow> out = mixed)
           \<and> ((\<exists>v\<in>set mixed. \<not> is_fin v) \<longrightarrow> NaN \<in> set out)))"
proof -
  have step: "\<exists>out. normalize_peak q = Inr out \<and> length out = length q
         \<and> ((\<forall>v\<in>set q. is_fin v) \<longrightarrow> (\<forall>v\<in>set out. \<exists>r. v = Fin r \<and> \<bar>r\<bar> \<le> 1))
         \<and> (NaN \<in> set q \<longrightarrow> out = q)
         \<and> ((\<exists>v\<in>set q. \<not> is_fin v) \<longrightarrow> NaN \<in> set out)"
    if ne: "q \<noteq> []" for q
  proof -
    from normalize_peak_ok[OF ne] obtain out where out: "normalize_peak q = Inr out"
      by blast
    have "\<forall>v\<in>set out. \<exists>r. v = Fin r \<and> \<bar>r\<bar> \<le> 1" if "\<forall>v\<in>set q. is_fin v"
    proof
      fix v assume v: "v \<in> set out"
      from that have "q = map Fin (map fin_value q)"
        by (simp only: all_fin_conv)
      with out have "normalize_peak (map Fin (map fin_value q)) = Inr out" by simp
      from this v show "\<exists>r. v = Fin r \<and> \<bar>r\<bar> \<le> 1" by (rule normalize_peak_bound)
    qed
    moreover have nan: "out = q" if "NaN \<in> set q"
      using normalize_peak_NaN[OF that] out by simp
    moreover have "NaN \<in> set out" if "\<exists>v\<in>set q. \<not> is_fin v"
    proof (cases "NaN \<in> set q")
      case True
      with nan show ?thesis by simp
    next
      case False
      from that obtain v where v: "v \<in> set q" "\<not> is_fin v" by blast
      with False have inf: "v = PInf \<or> v = NInf"
        by (auto simp: not_fin_cases)
      with v(1) have "PInf \<in> set q \<or> NInf \<in> set q" by auto
      from normalize_peak_infinite[OF False this] out
      have o: "out = map (\<lambda>v. v / PInf) q" by simp
      from inf have "v / PInf = NaN" by auto
      with v(1) show ?thesis
        unfolding o by (metis image_eqI list.set_map)
    qed
    ultimately show ?thesis
      using out normalize_peak_length[OF out] by blast
  qed
  have "\<exists>out. apply_eq audio sr low_gain mid_gain high_gain = Inr out
           \<and> normalize_peak mixed = Inr out \<and> out \<noteq> []
           \<and> ((\<forall>v\<in>set mixed. is_fin v) \<longrightarrow> (\<forall>v\<in>set out. \<exists>r. v = Fin r \<and> \<bar>r\<bar> \<le> 1))
           \<and> (NaN \<in> set mixed \<longrightarrow> out = mixed)
           \<and> ((\<exists>v\<in>set mixed. \<not> is_fin v) \<longrightarrow> NaN \<in> set out)"
    if mx: "mix_bands audio sr low_gain mid_gain high_gain = Inr mixed"
  proof -
    from mix_bands_nonempty[OF mx] have ne: "mixed \<noteq> []" .
    from step[OF ne] obtain out where
      out: "normalize_peak mixed = Inr out" "length out = length mixed"
        "(\<forall>v\<in>set mixed. is_fin v) \<longrightarrow> (\<forall>v\<in>set out. \<exists>r. v = Fin r \<and> \<bar>r\<bar> \<le> 1)"
        "NaN \<in> set mixed \<longrightarrow> out = mixed"
        "(\<exists>v\<in>set mixed. \<not> is_fin v) \<longrightarrow> NaN \<in> set out"
      by blast
    from out(2) ne have "out \<noteq> []" by auto
    moreover have "apply_eq audio sr low_gain mid_gain high_gain = Inr out"
      by (simp add: apply_eq_def mx out(1))
    ultimately show ?thesis using out by blast
  qed
  with step[of p] show ?thesis by blast
qed

theorem apply_eq_peak_bound_witness:
  "mix_bands (replicate 28 (Fin 2)) 44100 0 0 0 = Inr (replicate 28 (Fin 2))
   \<and> list_all is_fin (replicate 28 (Fin 2))
   \<and> apply_eq (replicate 28 (Fin 2)) 44100 0 0 0 = Inr (replicate 28 (Fin 1))
   \<and> list_all (\<lambda>v. \<exists>r. v = Fin r \<and> \<bar>r\<bar> \<le> 1) (replicate 28 (Fin 1))
   \<and> mix_bands (replicate 28 NaN) 44100 0 0 0 = Inr (replicate 28 NaN)
   \<and> apply_eq (replicate 28 NaN) 44100 0 0 0 = Inr (replicate 28 NaN)
   \<and> normalize_peak [Fin 3, Fin (- 4)] = Inr [Fin (3 / 4), Fin (- 1)]
   \<and> list_all (\<lambda>v. \<exists>r. v = Fin r \<and> \<bar>r\<bar> \<le> 1) [Fin (3 / 4), Fin (- 1)]
   \<and> normalize_peak [Fin 1, NInf] = Inr [Fin 0, NaN]"
proof -
  have h: "mix_bands (replicate 28 (Fin 2)) 44100 0 0 0 = Inr (replicate 28 (Fin 2))"
    using mix_bands_constant[of 44100 28 0 0 0 2] by (simp add: db_to_linear_0)
  have v: "apply_eq (replicate 28 (Fin 2)) 44100 0 0 0 = Inr (replicate 28 (Fin 1))"
    by (rule apply_eq_const) (simp_all add: db_to_linear_0)
  have f: "\<forall>v\<in>set (replicate 28 (Fin 2)). is_fin v" by simp
  from apply_eq_peak_bound[where audio = "replicate 28 (Fin 2)" and sr = 44100
      and low_gain = 0 and mid_gain = 0 and high_gain = 0
      and mixed = "replicate 28 (Fin 2)" and p = "[Fin 3, Fin (- 4)]"] h v f
  have b: "\<forall>v\<in>set (replicate 28 (Fin 1)). \<exists>r. v = Fin r \<and> \<bar>r\<bar> \<le> 1" by auto
  have n: "mix_bands (replicate 28 NaN) 44100 0 0 0 = Inr (replicate 28 NaN)"
    by (rule mix_bands_all_NaN) simp_all
  have "NaN \<in> set (replicate 28 NaN)" by simp
  with apply_eq_peak_bound[where audio = "replicate 28 NaN" and sr = 44100
      and low_gain = 0 and mid_gain = 0 and high_gain = 0
      and mixed = "replicate 28 NaN" and p = "[Fin 1, NInf]"] n
  have a: "apply_eq (replicate 28 NaN) 44100 0 0 0 = Inr (replicate 28 NaN)" by auto
  have p1: "normalize_peak [Fin 3, Fin (- 4)] = Inr [Fin (3 / 4), Fin (- 1)]"
    by (simp add: normalize_peak_def np_max_def)
  have p2: "normalize_peak [Fin 1, NInf] = Inr [Fin 0, NaN]"
    by (simp add: normalize_peak_def np_max_def)
  have "\<forall>v\<in>set [Fin 3, Fin (- 4)]. is_fin v" by simp
  with apply_eq_peak_bound[where p = "[Fin 3, Fin (- 4)]" and audio = "[]" and sr = 0
      and low_gain = 0 and mid_gain = 0 and high_gain = 0 and mixed = "[]"] p1
  have b1: "\<forall>v\<in>set [Fin (3 / 4), Fin (- 1)]. \<exists>r. v = Fin r \<and> \<bar>r\<bar> \<le> 1"
    by auto
  from h v b n a p1 p2 b1 show ?thesis
    by (simp add: list_all_iff)
qed



text \<open>
  C4. At \<open>sample_rate = 4000\<close> the Nyquist frequency is 2000 Hz. The low-pass cutoff and the
  upper edge of the band are clamped to \<open>nyquist - 1\<close> and their designs succeed, but the
  high-pass cutoff \<open>max(4000, 1) / nyquist = 2\<close> is passed on unclamped: \<open>butter\<close> rejects
  it, and \<open>apply_eq\<close> ends with \<open>ValueError\<close> for every buffer and every gain triple.
\<close>

theorem high_cutoff_unclamped_at_4000:
  "(\<exists>low. butter 4 (Scalar (min 250 (4000 / 2 - 1) / (4000 / 2))) Lowpass = Inr low)
   \<and> (\<exists>mid. butter 4 (Pair (max 250 1 / (4000 / 2)) (min 4000 (4000 / 2 - 1) / (4000 / 2)))
               Bandpass = Inr mid)
   \<and> butter 4 (Scalar (max 4000 1 / (4000 / 2))) Highpass = Inl ValueError
   \<and> apply_eq audio 4000 low_gain mid_gain high_gain = Inl ValueError"
proof -
  have "\<exists>b a. butter 4 (Scalar (min 250 (4000 / 2 - 1) / (4000 / 2))) Lowpass = Inr (b, a)
          \<and> length b = 5 \<and> length a = 5 \<and> a ! 0 = 1 \<and> sum_list a \<noteq> 0"
    by (rule butter_lowpass) simp_all
  then have low: "\<exists>low. butter 4 (Scalar (min 250 (4000 / 2 - 1) / (4000 / 2))) Lowpass = Inr low"
    by blast
  have "\<exists>b a. butter 4 (Pair (max 250 1 / (4000 / 2)) (min 4000 (4000 / 2 - 1) / (4000 / 2)))
                 Bandpass = Inr (b, a)
          \<and> length b = 9 \<and> length a = 9 \<and> a ! 0 = 1 \<and> sum_list a \<noteq> 0"
    by (rule butter_bandpass) simp_all
  then have mid: "\<exists>mid. butter 4 (Pair (max 250 1 / (4000 / 2))
                     (min 4000 (4000 / 2 - 1) / (4000 / 2))) Bandpass = Inr mid"
    by blast
  have high: "butter 4 (Scalar (max 4000 1 / (4000 / 2))) Highpass = Inl ValueError"
    by (simp add: butter_def)
  have "\<not> overflows (real_of_int 4000 / 2)"
    by (rule sample_rate_no_overflow) simp_all
  then have "mix_bands audio 4000 low_gain mid_gain high_gain = Inl ValueError"
    using mix_bands_design_fail[of 4000 audio low_gain mid_gain high_gain] by simp
  then have "apply_eq audio 4000 low_gain mid_gain high_gain = Inl ValueError"
    by (simp add: apply_eq_def)
  with low mid high show ?thesis by blast
qed




text \<open>
  C6 does not hold as stated: on the zero-length buffer \<open>apply_eq\<close> does not return the
  zero-length buffer. It fails with \<open>ValueError\<close>.
\<close>

theorem empty_buffer_counterexample:
  "apply_eq [] 44100 0 0 0 = Inl ValueError \<and> apply_eq [] 44100 0 0 0 \<noteq> Inr []"
proof -
  have "(8000::int) < 44100" "(44100::int) \<le> 192000" by simp_all
  from apply_eq_cases[OF this, of "[]" 0 0 0] show ?thesis by simp
qed

text \<open>
  C6, as the code has it. On a zero-length buffer the normalisation step fails:
  \<open>numpy.max\<close> of an empty array raises \<open>ValueError\<close>. Within \<open>apply_eq\<close> a zero-length
  input does not reach the step: the mix before it fails already, with \<open>OverflowError\<close>
  when \<open>sr / 2\<close> is too large for a double, with \<open>ZeroDivisionError\<close> when the sample rate
  is 0 and with \<open>ValueError\<close> otherwise (from \<open>butter\<close> up to 8000 Hz and from the first
  \<open>filtfilt\<close> above), and \<open>apply_eq\<close> fails with the same exception.
\<close>

theorem normalize_empty_raises:
  "normalize_peak [] = Inl ValueError
   \<and> mix_bands [] sr low_gain mid_gain high_gain
       = Inl (if overflows (real_of_int sr / 2) then OverflowError
              else if sr = 0 then ZeroDivisionError else ValueError)
   \<and> apply_eq [] sr low_gain mid_gain high_gain
       = Inl (if overflows (real_of_int sr / 2) then OverflowError
              else if sr = 0 then ZeroDivisionError else ValueError)"
proof -
  have m: "mix_bands [] sr low_gain mid_gain high_gain
       = Inl (if overflows (real_of_int sr / 2) then OverflowError
              else if sr = 0 then ZeroDivisionError else ValueError)"
  proof (cases "sr \<le> 8000 \<or> overflows (real_of_int sr / 2)")
    case True
    then show ?thesis by (rule mix_bands_design_fail)
  next
    case False
    then have sr: "8000 < sr" "\<not> overflows (real_of_int sr / 2)" by simp_all
    from mix_bands_cases[OF sr, of "[]" low_gain mid_gain high_gain] sr
    show ?thesis by auto
  qed
  then have "apply_eq [] sr low_gain mid_gain high_gain
       = Inl (if overflows (real_of_int sr / 2) then OverflowError
              else if sr = 0 then ZeroDivisionError else ValueError)"
    by (simp add: apply_eq_def)
  with m show ?thesis by (simp add: normalize_peak_Nil)
qed





text \<open>
  C9. Run on a store that holds the caller's buffer at the reference \<open>audio\<close>, \<open>apply_eq\<close>
  leaves that buffer, and every other array the store held before the call, exactly as it
  was, whether the call returns or raises: the arrays it computes are new ones. The
  reference it returns is one of the new arrays, and what it returns or raises is what the
  function on values gives for the buffer's contents.
\<close>

theorem apply_eq_leaves_input_unchanged:
  assumes "audio < length h"
    and "apply_eq_store audio sr low_gain mid_gain high_gain h = (result, h')"
  shows "h' ! audio = h ! audio \<and> take (length h) h' = h
         \<and> (case result of
               Inl e \<Rightarrow> apply_eq (h ! audio) sr low_gain mid_gain high_gain = Inl e
             | Inr out \<Rightarrow> length h \<le> out \<and> out < length h'
                 \<and> apply_eq (h ! audio) sr low_gain mid_gain high_gain = Inr (h' ! out))"
proof -
  from apply_eq_store_run[OF assms(1), of sr low_gain mid_gain high_gain] assms(2)
  obtain fresh where h': "h' = h @ fresh" and
    r: "case result of
          Inl e \<Rightarrow> apply_eq (h ! audio) sr low_gain mid_gain high_gain = Inl e
        | Inr out \<Rightarrow> length h \<le> out \<and> out < length (h @ fresh)
            \<and> apply_eq (h ! audio) sr low_gain mid_gain high_gain = Inr ((h @ fresh) ! out)"
    by auto
  have "h' ! audio = h ! audio"
    using assms(1) by (simp add: h' nth_append)
  moreover have "take (length h) h' = h" by (simp add: h')
  ultimately show ?thesis using r unfolding h' by simp
qed

theorem apply_eq_leaves_input_unchanged_witness:
  "snd (apply_eq_store 0 44100 0 0 0 [replicate 28 (Fin 2)]) ! 0 = replicate 28 (Fin 2)
   \<and> (\<exists>out. fst (apply_eq_store 0 44100 0 0 0 [replicate 28 (Fin 2)]) = Inr out
          \<and> 1 \<le> out
          \<and> snd (apply_eq_store 0 44100 0 0 0 [replicate 28 (Fin 2)]) ! out
              = replicate 28 (Fin 1))
   \<and> fst (apply_eq_store 0 44100 0 0 0 [ [Fin 1, Fin 2, Fin 3] ]) = Inl ValueError
   \<and> snd (apply_eq_store 0 44100 0 0 0 [ [Fin 1, Fin 2, Fin 3] ]) ! 0 = [Fin 1, Fin 2, Fin 3]"
proof -
  define run1 where "run1 = apply_eq_store 0 44100 0 0 0 [replicate 28 (Fin 2)]"
  define run2 where "run2 = apply_eq_store 0 44100 0 0 0 [ [Fin 1, Fin 2, Fin 3] ]"
  have v1: "apply_eq (replicate 28 (Fin 2)) 44100 0 0 0 = Inr (replicate 28 (Fin 1))"
    by (rule apply_eq_const) (simp_all add: db_to_linear_0)
  have s: "(8000::int) < 44100" "(44100::int) \<le> 192000" by simp_all
  have v2: "apply_eq [Fin 1, Fin 2, Fin 3] 44100 0 0 0 = Inl ValueError"
    using apply_eq_cases[OF s, of "[Fin 1, Fin 2, Fin 3]" 0 0 0] by simp
  have e1: "apply_eq_store 0 44100 0 0 0 [replicate 28 (Fin 2)] = (fst run1, snd run1)"
    and e2: "apply_eq_store 0 44100 0 0 0 [ [Fin 1, Fin 2, Fin 3] ] = (fst run2, snd run2)"
    by (simp_all add: run1_def run2_def)
  have "snd run1 ! 0 = replicate 28 (Fin 2)
        \<and> (\<exists>out. fst run1 = Inr out \<and> 1 \<le> out \<and> snd run1 ! out = replicate 28 (Fin 1))"
    using apply_eq_leaves_input_unchanged[OF _ e1] v1
    by (cases "fst run1") auto
  moreover have "fst run2 = Inl ValueError \<and> snd run2 ! 0 = [Fin 1, Fin 2, Fin 3]"
    using apply_eq_leaves_input_unchanged[OF _ e2] v2
    by (cases "fst run2") auto
  ultimately show ?thesis
    unfolding run1_def run2_def by simp
qed

end
